theory Spec2Isabelle
  imports Main "HOL-Library.Sublist"
begin

section \<open>Values, error tokens and the result cell\<close>

text \<open>
  The library is a template over the value type \<open>T\<close> of a future. The model uses one
  universe of values that holds the value types of the scenarios in \<open>main\<close>:
  \<open>future_void\<close> (the storage of a \<open>future<void>\<close>), the integers
  (\<open>int\<close>, \<open>long\<close>) and \<open>std::unique_ptr\<close> to an integer (\<open>None\<close> is the null pointer).
\<close>

datatype val = Future_void | Integer int | Unique_ptr "int option"

text \<open>
  \<open>std::exception_ptr\<close>: null, a \<open>future_error\<close> with its message (what
  \<open>make_future_error\<close> and \<open>throw_future_error\<close> build), the \<open>std::bad_variant_access\<close> that
  \<open>std::get\<close> throws on the wrong alternative, or an exception of the user's.
\<close>

datatype exception_ptr =
    Null_exception
  | Future_error string
  | Bad_variant_access
  | User_exception nat

text \<open>
  \<open>future_value<T> = std::variant<std::monostate, future_storage_t<T>, std::exception_ptr>\<close>.
\<close>

datatype future_value = Monostate | Value val | Error exception_ptr

fun index :: "future_value \<Rightarrow> nat" where
  "index Monostate = 0"
| "index (Value v) = 1"
| "index (Error e) = 2"

text \<open>
  What a move leaves behind. \<open>move_value\<close> is \<open>std::move(_value)\<close>; the variant that is
  moved from keeps its alternative, and its payload is the moved-from payload: a
  \<open>unique_ptr\<close> and an \<open>exception_ptr\<close> are left null, an integer is copied.
\<close>

fun moved_from_val :: "val \<Rightarrow> val" where
  "moved_from_val (Unique_ptr p) = Unique_ptr None"
| "moved_from_val v = v"

fun moved_from :: "future_value \<Rightarrow> future_value" where
  "moved_from Monostate = Monostate"
| "moved_from (Value v) = Value (moved_from_val v)"
| "moved_from (Error e) = Error Null_exception"

section \<open>Continuations and shared states\<close>

text \<open>
  A \<open>std::shared_ptr<future_state<T>>\<close> is an address into the list of allocated states,
  or null (\<open>None\<close>).
\<close>

type_synonym state_ptr = "nat option"

text \<open>
  The user function of a continuation, by the \<open>if constexpr (is_future_v<...>)\<close> of
  \<open>continue_with\<close>: it returns a plain result (a \<open>void\<close> function returns
  \<open>Future_void\<close>) or a \<open>future<X>\<close>, given by the \<open>_state\<close> of the handle it returns.
  Either may throw instead (\<open>Inl\<close>). The argument is taken by value. A function is a
  function of its argument: it does not call into the library while it runs.
\<close>

datatype 'a func =
    Returns "'a \<Rightarrow> exception_ptr + val"
  | Returns_future "'a \<Rightarrow> exception_ptr + state_ptr"

text \<open>
  The three continuation objects; the address is \<open>_state\<close> (\<open>_dest\<close> for
  \<open>future_attach\<close>), the destination state.
\<close>

datatype future_continuation =
    Future_then "val func" nat
  | Future_catch "exception_ptr func" nat
  | Future_attach nat

record future_state =
  s_value :: future_value
  s_continuation :: "future_continuation option"

type_synonym future_next = "future_continuation option \<times> nat"

text \<open>
  Ghost events: the user function of the then- or catch-continuation with the given
  destination state was called with the given argument.
\<close>

datatype event = Invoke_then nat val | Invoke_catch nat exception_ptr

text \<open>
  The heap of shared states, and three ghost fields that the code never reads: the
  calls of user functions in order, the number of \<open>continue_with\<close> calls that are
  active, and the highest such number so far.
\<close>

record world =
  states :: "future_state list"
  trace :: "event list"
  frames :: nat
  peak :: nat

definition state_at :: "nat \<Rightarrow> world \<Rightarrow> future_state option" where
  "state_at a w = (if a < length (states w) then Some (states w ! a) else None)"

definition put_state :: "nat \<Rightarrow> future_state \<Rightarrow> world \<Rightarrow> world" where
  "put_state a s w = w\<lparr>states := (states w)[a := s]\<rparr>"

text \<open>\<open>std::make_shared<future_state<T>>()\<close>: a fresh state, empty cell, no continuation.\<close>

definition make_shared :: "world \<Rightarrow> nat \<times> world" where
  "make_shared w =
     (length (states w),
      w\<lparr>states := states w @ [\<lparr>s_value = Monostate, s_continuation = None\<rparr>]\<rparr>)"

subsection \<open>\<open>future_state\<close>\<close>

text \<open>
  Every operation is \<open>None\<close> when it does not return: the address is no state, an
  \<open>assert\<close> fails, or an exception leaves \<open>continue_with\<close>.
\<close>

definition ready_impl :: "future_state \<Rightarrow> bool" where
  "ready_impl s = (index (s_value s) \<noteq> 0)"

definition state_ready :: "nat \<Rightarrow> world \<Rightarrow> bool option" where
  "state_ready a w = map_option ready_impl (state_at a w)"

definition state_next :: "nat \<Rightarrow> world \<Rightarrow> (future_continuation option \<times> world) option" where
  "state_next a w =
     (case state_at a w of
        None \<Rightarrow> None
      | Some s \<Rightarrow>
          if \<not> ready_impl s then None
          else Some (s_continuation s, put_state a (s\<lparr>s_continuation := None\<rparr>) w))"

definition state_chain ::
  "nat \<Rightarrow> future_continuation \<Rightarrow> world \<Rightarrow> (future_continuation option \<times> world) option" where
  "state_chain a cont w =
     (case state_at a w of
        None \<Rightarrow> None
      | Some s \<Rightarrow>
          if s_continuation s \<noteq> None then None
          else if ready_impl s then Some (Some cont, w)
          else Some (None, put_state a (s\<lparr>s_continuation := Some cont\<rparr>) w))"

definition set_value :: "nat \<Rightarrow> future_value \<Rightarrow> world \<Rightarrow> world option" where
  "set_value a v w =
     (case state_at a w of
        None \<Rightarrow> None
      | Some s \<Rightarrow> Some (put_state a (s\<lparr>s_value := v\<rparr>) w))"

definition move_value :: "nat \<Rightarrow> world \<Rightarrow> (future_value \<times> world) option" where
  "move_value a w =
     (case state_at a w of
        None \<Rightarrow> None
      | Some s \<Rightarrow> Some (s_value s, put_state a (s\<lparr>s_value := moved_from (s_value s)\<rparr>) w))"

subsection \<open>\<open>attach_future\<close> and the three \<open>continue_with\<close>\<close>

definition attach_future :: "state_ptr \<Rightarrow> nat \<Rightarrow> world \<Rightarrow> (future_next \<times> world) option" where
  "attach_future src dest w =
     (case src of
        Some s \<Rightarrow>
          (case state_ready s w of
             None \<Rightarrow> None
           | Some r \<Rightarrow>
               if \<not> r then
                 (case state_chain s (Future_attach dest) w of
                    None \<Rightarrow> None
                  | Some (nxt, w1) \<Rightarrow> Some ((nxt, s), w1))
               else
                 (case move_value s w of
                    None \<Rightarrow> None
                  | Some (v, w1) \<Rightarrow>
                      (case set_value dest v w1 of
                         None \<Rightarrow> None
                       | Some w2 \<Rightarrow>
                           (case state_next dest w2 of
                              None \<Rightarrow> None
                            | Some (nxt, w3) \<Rightarrow> Some ((nxt, dest), w3)))))
      | None \<Rightarrow>
          (case set_value dest (Error (Future_error ''invalid future'')) w of
             None \<Rightarrow> None
           | Some w2 \<Rightarrow>
               (case state_next dest w2 of
                  None \<Rightarrow> None
                | Some (nxt, w3) \<Rightarrow> Some ((nxt, dest), w3))))"

definition log_event :: "event \<Rightarrow> world \<Rightarrow> world" where
  "log_event e w = w\<lparr>trace := trace w @ [e]\<rparr>"

text \<open>The tail of \<open>future_then\<close> and \<open>future_catch\<close>: \<open>_state->next()\<close> and the pair.\<close>

definition finish :: "nat \<Rightarrow> world \<Rightarrow> (future_next \<times> world) option" where
  "finish dest w =
     (case state_next dest w of
        None \<Rightarrow> None
      | Some (nxt, w1) \<Rightarrow> Some ((nxt, dest), w1))"

definition settle :: "nat \<Rightarrow> future_value \<Rightarrow> world \<Rightarrow> (future_next \<times> world) option" where
  "settle dest v w =
     (case set_value dest v w of
        None \<Rightarrow> None
      | Some w1 \<Rightarrow> finish dest w1)"

text \<open>
  \<open>future_then::continue_with\<close>. The branch for a function that returns a future reads
  \<open>std::invoke(std::move(_func), std::get<T>(std::move(value)))\<close>; for \<open>T = void\<close> the
  cell holds \<open>future_void\<close>, \<open>std::get<void>\<close> names no alternative of the variant, and
  the function, which takes no argument, is handed one: the branch is ill-formed and no
  such continuation object exists. The model gives it no run (\<open>None\<close>). The branch for
  a plain result goes through \<open>invoke_future_then\<close>, which calls a nullary function
  when \<open>T\<close> is \<open>void\<close>.
\<close>

fun then_continue_with :: "val func \<Rightarrow> nat \<Rightarrow> nat \<Rightarrow> world \<Rightarrow> (future_next \<times> world) option" where
  "then_continue_with f dest a w =
     (case move_value a w of
        None \<Rightarrow> None
      | Some (Value v, w1) \<Rightarrow>
          (case f of
             Returns_future g \<Rightarrow>
               if v = Future_void then None
               else
                 (case g v of
                    Inr fut \<Rightarrow> attach_future fut dest (log_event (Invoke_then dest v) w1)
                  | Inl ex \<Rightarrow> settle dest (Error ex) (log_event (Invoke_then dest v) w1))
           | Returns g \<Rightarrow>
               (case g v of
                  Inr r \<Rightarrow> settle dest (Value r) (log_event (Invoke_then dest v) w1)
                | Inl ex \<Rightarrow> settle dest (Error ex) (log_event (Invoke_then dest v) w1)))
      | Some (Error e, w1) \<Rightarrow> settle dest (Error e) w1
      | Some (Monostate, w1) \<Rightarrow> None)"

fun catch_continue_with ::
  "exception_ptr func \<Rightarrow> nat \<Rightarrow> nat \<Rightarrow> world \<Rightarrow> (future_next \<times> world) option" where
  "catch_continue_with f dest a w =
     (case move_value a w of
        None \<Rightarrow> None
      | Some (Value v, w1) \<Rightarrow> settle dest (Value v) w1
      | Some (Error e, w1) \<Rightarrow>
          (case f of
             Returns_future g \<Rightarrow>
               (case g e of
                  Inr fut \<Rightarrow> attach_future fut dest (log_event (Invoke_catch dest e) w1)
                | Inl ex \<Rightarrow> settle dest (Error ex) (log_event (Invoke_catch dest e) w1))
           | Returns g \<Rightarrow>
               (case g e of
                  Inr r \<Rightarrow> settle dest (Value r) (log_event (Invoke_catch dest e) w1)
                | Inl ex \<Rightarrow> settle dest (Error ex) (log_event (Invoke_catch dest e) w1)))
      | Some (Monostate, w1) \<Rightarrow> settle dest (Error Bad_variant_access) w1)"

definition attach_continue_with :: "nat \<Rightarrow> nat \<Rightarrow> world \<Rightarrow> (future_next \<times> world) option" where
  "attach_continue_with dest a w =
     (case move_value a w of
        None \<Rightarrow> None
      | Some (v, w1) \<Rightarrow> settle dest v w1)"

definition enter :: "world \<Rightarrow> world" where
  "enter w = w\<lparr>frames := frames w + 1, peak := max (peak w) (frames w + 1)\<rparr>"

definition leave :: "world \<Rightarrow> world" where
  "leave w = w\<lparr>frames := frames w - 1\<rparr>"

fun dispatch :: "future_continuation \<Rightarrow> nat \<Rightarrow> world \<Rightarrow> (future_next \<times> world) option" where
  "dispatch (Future_then f dest) a w = then_continue_with f dest a w"
| "dispatch (Future_catch f dest) a w = catch_continue_with f dest a w"
| "dispatch (Future_attach dest) a w = attach_continue_with dest a w"

text \<open>The virtual call \<open>continue_with\<close>, with the ghost count of active calls.\<close>

definition continue_with ::
  "future_continuation \<Rightarrow> nat \<Rightarrow> world \<Rightarrow> (future_next \<times> world) option" where
  "continue_with c a w =
     (case dispatch c a (enter w) of
        None \<Rightarrow> None
      | Some (nxt, w1) \<Rightarrow> Some (nxt, leave w1))"

section \<open>The trampoline\<close>

text \<open>The number of continuations that sit in a slot: the loop's measure.\<close>

definition attached :: "world \<Rightarrow> nat" where
  "attached w = length (filter (\<lambda>s. s_continuation s \<noteq> None) (states w))"

lemma attached_put_value [simp]:
  "a < length (states w) \<Longrightarrow>
   attached (put_state a ((states w ! a)\<lparr>s_value := v\<rparr>) w) = attached w"
proof -
  assume a: "a < length (states w)"
  have "map (\<lambda>s. s_continuation s \<noteq> None) ((states w)[a := (states w ! a)\<lparr>s_value := v\<rparr>])
      = map (\<lambda>s. s_continuation s \<noteq> None) (states w)"
    using a by (simp add: list_eq_iff_nth_eq nth_list_update)
  then have "length (filter id (map (\<lambda>s. s_continuation s \<noteq> None)
                 ((states w)[a := (states w ! a)\<lparr>s_value := v\<rparr>])))
           = length (filter id (map (\<lambda>s. s_continuation s \<noteq> None) (states w)))"
    by simp
  then show ?thesis
    by (simp add: attached_def put_state_def filter_map comp_def)
qed

lemma length_filter_update:
  assumes "a < length xs"
  shows "length (filter P (xs[a := x])) + (if P (xs ! a) then 1 else 0)
       = length (filter P xs) + (if P x then 1 else 0)"
  using assms
proof (induction xs arbitrary: a)
  case Nil
  then show ?case by simp
next
  case (Cons y ys)
  then show ?case by (cases a) auto
qed

lemma attached_take:
  "a < length (states w) \<Longrightarrow> s_continuation (states w ! a) = Some c \<Longrightarrow>
   Suc (attached (put_state a ((states w ! a)\<lparr>s_continuation := None\<rparr>) w)) = attached w"
  using length_filter_update [of a "states w" "\<lambda>s. s_continuation s \<noteq> None"
          "(states w ! a)\<lparr>s_continuation := None\<rparr>"]
  by (simp add: attached_def put_state_def)

lemma attached_trace [simp]: "attached (log_event e w) = attached w"
  by (simp add: attached_def log_event_def)

lemma attached_enter [simp]: "attached (enter w) = attached w"
  by (simp add: attached_def enter_def)

lemma attached_leave [simp]: "attached (leave w) = attached w"
  by (simp add: attached_def leave_def)

lemma set_value_attached: "set_value a v w = Some w' \<Longrightarrow> attached w' = attached w"
  by (auto simp: set_value_def state_at_def split: if_splits)

lemma move_value_attached: "move_value a w = Some (v, w') \<Longrightarrow> attached w' = attached w"
  by (auto simp: move_value_def state_at_def split: if_splits)

lemma state_next_attached:
  "state_next a w = Some (Some c, w') \<Longrightarrow> attached w' < attached w"
  using attached_take [of a w c]
  by (auto simp: state_next_def state_at_def split: if_splits)

lemma finish_attached: "finish d w = Some ((Some c, a'), w') \<Longrightarrow> attached w' < attached w"
  by (auto simp: finish_def split: option.splits dest: state_next_attached)

lemma settle_attached: "settle d v w = Some ((Some c, a'), w') \<Longrightarrow> attached w' < attached w"
proof -
  assume "settle d v w = Some ((Some c, a'), w')"
  then obtain w1 where sv: "set_value d v w = Some w1"
    and fin: "finish d w1 = Some ((Some c, a'), w')"
    by (auto simp: settle_def split: option.splits)
  from finish_attached [OF fin] set_value_attached [OF sv] show ?thesis
    by simp
qed

lemma attach_future_attached:
  "attach_future src d w = Some ((Some c, a'), w') \<Longrightarrow> attached w' < attached w"
  by (auto simp: attach_future_def state_chain_def state_ready_def
           split: option.splits if_splits
           dest!: state_next_attached set_value_attached move_value_attached)

lemma dispatch_attached:
  "dispatch k a w = Some ((Some c, a'), w') \<Longrightarrow> attached w' < attached w"
proof (cases k)
  case (Future_then f d)
  assume "dispatch k a w = Some ((Some c, a'), w')"
  with Future_then show ?thesis
    by (auto split: option.splits future_value.splits func.splits sum.splits if_splits
             dest!: settle_attached attach_future_attached move_value_attached)
next
  case (Future_catch f d)
  assume "dispatch k a w = Some ((Some c, a'), w')"
  with Future_catch show ?thesis
    by (auto split: option.splits future_value.splits func.splits sum.splits
             dest!: settle_attached attach_future_attached move_value_attached)
next
  case (Future_attach d)
  assume "dispatch k a w = Some ((Some c, a'), w')"
  with Future_attach show ?thesis
    by (auto simp: attach_continue_with_def split: option.splits
             dest!: settle_attached move_value_attached)
qed

lemma continue_with_attached:
  "continue_with k a w = Some ((Some c, a'), w') \<Longrightarrow> attached w' < attached w"
  by (auto simp: continue_with_def split: option.splits dest!: dispatch_attached)

text \<open>
  \<open>execute_future\<close>: \<open>while (next.first) next = next.first->continue_with(*next.second)\<close>.
\<close>

function execute_future :: "future_next \<Rightarrow> world \<Rightarrow> world option" where
  "execute_future nxt w =
     (case fst nxt of
        None \<Rightarrow> Some w
      | Some c \<Rightarrow>
          (case continue_with c (snd nxt) w of
             None \<Rightarrow> None
           | Some (nxt', w') \<Rightarrow> execute_future nxt' w'))"
  by pat_completeness auto
termination
proof (relation "measure (\<lambda>(nxt, w). case fst nxt of None \<Rightarrow> 0 | Some c \<Rightarrow> Suc (attached w))")
  show "wf (measure (\<lambda>(nxt, w). case fst nxt of None \<Rightarrow> 0 | Some c \<Rightarrow> Suc (attached w)))"
    by simp
next
  fix nxt :: future_next and w :: world and c x nxt' w'
  assume "fst nxt = Some c" and "continue_with c (snd nxt) w = Some x" and "(nxt', w') = x"
  then have cw: "continue_with c (snd nxt) w = Some (nxt', w')"
    by simp
  show "((nxt', w'), (nxt, w))
        \<in> measure (\<lambda>(nxt, w). case fst nxt of None \<Rightarrow> 0 | Some c \<Rightarrow> Suc (attached w))"
  proof (cases "fst nxt'")
    case None
    with \<open>fst nxt = Some c\<close> show ?thesis by simp
  next
    case (Some c')
    then have "nxt' = (Some c', snd nxt')"
      by (cases nxt') simp
    with cw have "attached w' < attached w"
      using continue_with_attached [of c "snd nxt" w c' "snd nxt'" w'] by simp
    with Some \<open>fst nxt = Some c\<close> show ?thesis by simp
  qed
qed

declare execute_future.simps [simp del]

section \<open>The handles: \<open>future\<close> and \<open>promise\<close>\<close>

text \<open>
  A handle is its \<open>_state\<close>. A member function that changes \<open>_state\<close> returns the new
  one. A call that throws at the call site returns \<open>Inl\<close> of the exception; the whole
  result is \<open>None\<close> when the call does not return.
\<close>

definition fut_valid :: "state_ptr \<Rightarrow> bool" where
  "fut_valid this = (this \<noteq> None)"

definition fut_ready :: "state_ptr \<Rightarrow> world \<Rightarrow> bool option" where
  "fut_ready this w = (case this of None \<Rightarrow> Some False | Some a \<Rightarrow> state_ready a w)"

text \<open>
  \<open>future::then\<close> and \<open>future::catch_exception\<close> differ in the continuation they build.
  The result is the pair of \<open>this->_state\<close> after the call and the \<open>_state\<close> of the
  future returned.
\<close>

definition fut_attach ::
  "(nat \<Rightarrow> future_continuation) \<Rightarrow> state_ptr \<Rightarrow> world
     \<Rightarrow> ((exception_ptr + state_ptr \<times> state_ptr) \<times> world) option" where
  "fut_attach mk this w =
     (case this of
        None \<Rightarrow> Some (Inl (Future_error ''invalid future''), w)
      | Some a \<Rightarrow>
          (case make_shared w of
             (d, w1) \<Rightarrow>
               (case state_chain a (mk d) w1 of
                  None \<Rightarrow> None
                | Some (nxt, w2) \<Rightarrow>
                    (case execute_future (nxt, a) w2 of
                       None \<Rightarrow> None
                     | Some w3 \<Rightarrow> Some (Inr (None, Some d), w3)))))"

definition fut_then ::
  "val func \<Rightarrow> state_ptr \<Rightarrow> world \<Rightarrow> ((exception_ptr + state_ptr \<times> state_ptr) \<times> world) option" where
  "fut_then f = fut_attach (Future_then f)"

definition fut_catch_exception ::
  "exception_ptr func \<Rightarrow> state_ptr \<Rightarrow> world
     \<Rightarrow> ((exception_ptr + state_ptr \<times> state_ptr) \<times> world) option" where
  "fut_catch_exception f = fut_attach (Future_catch f)"

text \<open>\<open>promise_base::satisfy\<close>, called with \<open>_state\<close> not null; it leaves \<open>_state\<close> null.\<close>

definition satisfy :: "future_value \<Rightarrow> nat \<Rightarrow> world \<Rightarrow> world option" where
  "satisfy arg a w =
     (case set_value a arg w of
        None \<Rightarrow> None
      | Some w1 \<Rightarrow>
          (case state_next a w1 of
             None \<Rightarrow> None
           | Some (nxt, w2) \<Rightarrow> execute_future (nxt, a) w2))"

text \<open>\<open>check\<close> and \<open>satisfy\<close>: the body of every \<open>set_value\<close> and \<open>set_exception\<close>.\<close>

definition prm_set ::
  "future_value \<Rightarrow> state_ptr \<Rightarrow> world \<Rightarrow> ((exception_ptr + state_ptr) \<times> world) option" where
  "prm_set arg this w =
     (case this of
        None \<Rightarrow> Some (Inl (Future_error ''promise already satisfied''), w)
      | Some a \<Rightarrow>
          (case satisfy arg a w of
             None \<Rightarrow> None
           | Some w1 \<Rightarrow> Some (Inr None, w1)))"

definition prm_set_value ::
  "val \<Rightarrow> state_ptr \<Rightarrow> world \<Rightarrow> ((exception_ptr + state_ptr) \<times> world) option" where
  "prm_set_value v = prm_set (Value v)"

definition prm_set_exception ::
  "exception_ptr \<Rightarrow> state_ptr \<Rightarrow> world \<Rightarrow> ((exception_ptr + state_ptr) \<times> world) option" where
  "prm_set_exception ex = prm_set (Error ex)"

text \<open>\<open>~promise_base\<close>.\<close>

definition prm_destroy :: "state_ptr \<Rightarrow> world \<Rightarrow> world option" where
  "prm_destroy this w =
     (case this of
        None \<Rightarrow> Some w
      | Some a \<Rightarrow> satisfy (Error (Future_error ''broken promise'')) a w)"

text \<open>\<open>future_helper::make\<close> and \<open>make_ready\<close>, and the factories over them.\<close>

definition make_promise :: "world \<Rightarrow> (state_ptr \<times> state_ptr) \<times> world" where
  "make_promise w = (case make_shared w of (a, w1) \<Rightarrow> ((Some a, Some a), w1))"

definition make_ready :: "future_value \<Rightarrow> world \<Rightarrow> state_ptr \<times> world" where
  "make_ready arg w =
     (case make_shared w of
        (a, w1) \<Rightarrow> (Some a, put_state a (\<lparr>s_value = arg, s_continuation = None\<rparr>) w1))"

definition make_ready_future :: "val \<Rightarrow> world \<Rightarrow> state_ptr \<times> world" where
  "make_ready_future v = make_ready (Value v)"

definition make_exceptional_future :: "exception_ptr \<Rightarrow> world \<Rightarrow> state_ptr \<times> world" where
  "make_exceptional_future ex = make_ready (Error ex)"

definition world0 :: world where
  "world0 = \<lparr>states = [], trace = [], frames = 0, peak = 0\<rparr>"

text \<open>The cell at an address holds a value or an error: \<open>ready()\<close> of its state is true.\<close>

definition settled :: "nat \<Rightarrow> world \<Rightarrow> bool" where
  "settled a w = (state_ready a w = Some True)"

definition keeps_settled :: "world \<Rightarrow> world \<Rightarrow> bool" where
  "keeps_settled w w' = (\<forall>a. settled a w \<longrightarrow> settled a w')"

section \<open>Programs over the public interface\<close>

text \<open>
  A program is a list of calls. It names its handles by position: the futures and the
  promises it has made so far. A position that holds no handle yet reads as a
  default-constructed handle, which is null. An exception thrown at a call site is
  recorded and the program goes on, as if caught there.
\<close>

datatype api_op =
    Make_promise
  | Make_ready_future val
  | Make_exceptional_future exception_ptr
  | Then nat "val func"
  | Catch_exception nat "exception_ptr func"
  | Set_value nat val
  | Set_exception nat exception_ptr
  | Destroy_promise nat

record program =
  futures :: "state_ptr list"
  promises :: "state_ptr list"
  thrown :: "exception_ptr list"
  heap :: world

definition handle :: "state_ptr list \<Rightarrow> nat \<Rightarrow> state_ptr" where
  "handle hs i = (if i < length hs then hs ! i else None)"

definition attached_step ::
  "nat \<Rightarrow> ((exception_ptr + state_ptr \<times> state_ptr) \<times> world) option \<Rightarrow> program \<Rightarrow> program option" where
  "attached_step i res ps =
     (case res of
        None \<Rightarrow> None
      | Some (Inl ex, w) \<Rightarrow> Some (ps\<lparr>thrown := thrown ps @ [ex], heap := w\<rparr>)
      | Some (Inr (this', fut), w) \<Rightarrow>
          Some (ps\<lparr>futures := (futures ps)[i := this'] @ [fut], heap := w\<rparr>))"

definition satisfied_step ::
  "nat \<Rightarrow> ((exception_ptr + state_ptr) \<times> world) option \<Rightarrow> program \<Rightarrow> program option" where
  "satisfied_step i res ps =
     (case res of
        None \<Rightarrow> None
      | Some (Inl ex, w) \<Rightarrow> Some (ps\<lparr>thrown := thrown ps @ [ex], heap := w\<rparr>)
      | Some (Inr this', w) \<Rightarrow> Some (ps\<lparr>promises := (promises ps)[i := this'], heap := w\<rparr>))"

fun api_step :: "api_op \<Rightarrow> program \<Rightarrow> program option" where
  "api_step Make_promise ps =
     (case make_promise (heap ps) of
        ((p, f), w) \<Rightarrow>
          Some (ps\<lparr>promises := promises ps @ [p], futures := futures ps @ [f], heap := w\<rparr>))"
| "api_step (Make_ready_future v) ps =
     (case make_ready_future v (heap ps) of
        (f, w) \<Rightarrow> Some (ps\<lparr>futures := futures ps @ [f], heap := w\<rparr>))"
| "api_step (Make_exceptional_future ex) ps =
     (case make_exceptional_future ex (heap ps) of
        (f, w) \<Rightarrow> Some (ps\<lparr>futures := futures ps @ [f], heap := w\<rparr>))"
| "api_step (Then i f) ps = attached_step i (fut_then f (handle (futures ps) i) (heap ps)) ps"
| "api_step (Catch_exception i f) ps =
     attached_step i (fut_catch_exception f (handle (futures ps) i) (heap ps)) ps"
| "api_step (Set_value i v) ps =
     satisfied_step i (prm_set_value v (handle (promises ps) i) (heap ps)) ps"
| "api_step (Set_exception i ex) ps =
     satisfied_step i (prm_set_exception ex (handle (promises ps) i) (heap ps)) ps"
| "api_step (Destroy_promise i) ps =
     (case prm_destroy (handle (promises ps) i) (heap ps) of
        None \<Rightarrow> None
      | Some w \<Rightarrow> Some (ps\<lparr>promises := (promises ps)[i := None], heap := w\<rparr>))"

fun run :: "api_op list \<Rightarrow> program \<Rightarrow> program option" where
  "run [] ps = Some ps"
| "run (x # xs) ps = (case api_step x ps of None \<Rightarrow> None | Some ps' \<Rightarrow> run xs ps')"

fun leaves_empty :: "nat \<Rightarrow> api_op list \<Rightarrow> program \<Rightarrow> nat option" where
  "leaves_empty a [] ps = Some 0"
| "leaves_empty a (x # xs) ps =
     (case api_step x ps of
        None \<Rightarrow> None
      | Some ps' \<Rightarrow>
          map_option (\<lambda>n. n + (if \<not> settled a (heap ps) \<and> settled a (heap ps') then 1 else 0))
            (leaves_empty a xs ps'))"

definition program0 :: program where
  "program0 = \<lparr>futures = [], promises = [], thrown = [], heap = world0\<rparr>"

section \<open>Chains of continuations\<close>

text \<open>\<open>F.then(g1).then(g2)...\<close>; \<open>None\<close> when a call throws or does not return.\<close>

fun then_chain :: "val func list \<Rightarrow> state_ptr \<Rightarrow> world \<Rightarrow> (state_ptr \<times> world) option" where
  "then_chain [] fut w = Some (fut, w)"
| "then_chain (g # gs) fut w =
     (case fut_then g fut w of
        Some (Inr (this', fut'), w') \<Rightarrow> then_chain gs fut' w'
      | _ \<Rightarrow> None)"

text \<open>
  The states of a pending future at address \<open>n\<close> with then-continuations attached in a
  row, and the continuation \<open>k\<close> (if any) attached to the future the last \<open>then\<close> returned.
\<close>

fun then_states :: "nat \<Rightarrow> val func list \<Rightarrow> future_continuation option \<Rightarrow> future_state list" where
  "then_states n [] k = [\<lparr>s_value = Monostate, s_continuation = k\<rparr>]"
| "then_states n (g # gs) k =
     \<lparr>s_value = Monostate, s_continuation = Some (Future_then g (Suc n))\<rparr> # then_states (Suc n) gs k"

text \<open>
  What a then-continuation puts into its destination, given the cell of its source;
  \<open>Monostate\<close> when it does not settle the destination now: the function returned a
  future (\<open>attach_future\<close> decides), or the source is empty. Likewise for a
  catch-continuation.
\<close>

fun then_outcome :: "val func \<Rightarrow> future_value \<Rightarrow> future_value" where
  "then_outcome f (Error e) = Error e"
| "then_outcome (Returns g) (Value v) = (case g v of Inr r \<Rightarrow> Value r | Inl ex \<Rightarrow> Error ex)"
| "then_outcome (Returns_future g) (Value v) =
     (if v = Future_void then Monostate else case g v of Inr fut \<Rightarrow> Monostate | Inl ex \<Rightarrow> Error ex)"
| "then_outcome f Monostate = Monostate"

fun catch_outcome :: "exception_ptr func \<Rightarrow> future_value \<Rightarrow> future_value" where
  "catch_outcome f (Value v) = Value v"
| "catch_outcome (Returns g) (Error e) = (case g e of Inr r \<Rightarrow> Value r | Inl ex \<Rightarrow> Error ex)"
| "catch_outcome (Returns_future g) (Error e) = (case g e of Inr fut \<Rightarrow> Monostate | Inl ex \<Rightarrow> Error ex)"
| "catch_outcome f Monostate = Error Bad_variant_access"

text \<open>
  A chain settles, from the cell \<open>x\<close> of its source, when no then-continuation of it
  returns a future. Then \<open>drained\<close> gives the states it leaves, \<open>then_events\<close> the
  calls of user functions and \<open>chain_outcome\<close> the cell of the last future.
\<close>

fun settles :: "future_value \<Rightarrow> val func list \<Rightarrow> bool" where
  "settles x [] = (x \<noteq> Monostate)"
| "settles x (g # gs) = (x \<noteq> Monostate \<and> settles (then_outcome g x) gs)"

fun drained :: "future_value \<Rightarrow> val func list \<Rightarrow> future_state list" where
  "drained x [] = [\<lparr>s_value = x, s_continuation = None\<rparr>]"
| "drained x (g # gs) =
     \<lparr>s_value = moved_from x, s_continuation = None\<rparr> # drained (then_outcome g x) gs"

fun then_events :: "nat \<Rightarrow> future_value \<Rightarrow> val func list \<Rightarrow> event list" where
  "then_events n x [] = []"
| "then_events n x (g # gs) =
     (case x of Value v \<Rightarrow> [Invoke_then (Suc n) v] | _ \<Rightarrow> []) @ then_events (Suc n) (then_outcome g x) gs"

fun chain_outcome :: "future_value \<Rightarrow> val func list \<Rightarrow> future_value" where
  "chain_outcome x [] = x"
| "chain_outcome x (g # gs) = chain_outcome (then_outcome g x) gs"

subsection \<open>Scenarios\<close>

text \<open>
  A promise, a chain of \<open>then\<close> on its future, and then: the promise is destroyed; it is
  satisfied with \<open>x\<close>. Or the future is made ready with \<open>x\<close> before the chain is attached.
\<close>

definition broken_promise :: "val func list \<Rightarrow> world \<Rightarrow> world option" where
  "broken_promise gs w =
     (case make_promise w of
        ((p, f), w0) \<Rightarrow>
          (case then_chain gs f w0 of
             None \<Rightarrow> None
           | Some (f1, w1) \<Rightarrow> prm_destroy p w1))"

definition resolved_after_attach :: "val func list \<Rightarrow> future_value \<Rightarrow> world \<Rightarrow> world option" where
  "resolved_after_attach gs x w =
     (case make_promise w of
        ((p, f), w0) \<Rightarrow>
          (case then_chain gs f w0 of
             None \<Rightarrow> None
           | Some (f1, w1) \<Rightarrow> map_option snd (prm_set x p w1)))"

definition resolved_before_attach :: "val func list \<Rightarrow> future_value \<Rightarrow> world \<Rightarrow> world option" where
  "resolved_before_attach gs x w =
     (case make_ready x w of
        (f, w0) \<Rightarrow> map_option snd (then_chain gs f w0))"

text \<open>
  The same with \<open>catch_exception(h)\<close> after the chain and the error \<open>e\<close>: set after the
  chain is attached, or before.
\<close>

definition rejected_after_attach ::
  "val func list \<Rightarrow> exception_ptr func \<Rightarrow> exception_ptr \<Rightarrow> world \<Rightarrow> world option" where
  "rejected_after_attach gs h e w =
     (case make_promise w of
        ((p, f), w0) \<Rightarrow>
          (case then_chain gs f w0 of
             None \<Rightarrow> None
           | Some (f1, w1) \<Rightarrow>
               (case fut_catch_exception h f1 w1 of
                  Some (Inr (this', f2), w2) \<Rightarrow> map_option snd (prm_set_exception e p w2)
                | _ \<Rightarrow> None)))"

definition rejected_before_attach ::
  "val func list \<Rightarrow> exception_ptr func \<Rightarrow> exception_ptr \<Rightarrow> world \<Rightarrow> world option" where
  "rejected_before_attach gs h e w =
     (case make_exceptional_future e w of
        (f, w0) \<Rightarrow>
          (case then_chain gs f w0 of
             None \<Rightarrow> None
           | Some (f1, w1) \<Rightarrow>
               (case fut_catch_exception h f1 w1 of
                  Some (Inr (this', f2), w2) \<Rightarrow> Some w2
                | _ \<Rightarrow> None)))"

text \<open>The world in which the error has passed the then-continuations and stands before the catch.\<close>

definition before_catch :: "val func list \<Rightarrow> exception_ptr \<Rightarrow> world \<Rightarrow> nat \<Rightarrow> world" where
  "before_catch gs e w pk =
     \<lparr>states = states w @ drained (Error e) gs @ [\<lparr>s_value = Monostate, s_continuation = None\<rparr>],
      trace = trace w, frames = frames w, peak = pk\<rparr>"

section \<open>Relations between the world before and after a call\<close>




definition depth_bounded :: "world \<Rightarrow> world \<Rightarrow> bool" where
  "depth_bounded w w' =
     (frames w' = frames w \<and> peak w \<le> peak w' \<and> peak w' \<le> max (peak w) (Suc (frames w)))"

definition same_depth :: "world \<Rightarrow> world \<Rightarrow> bool" where
  "same_depth w w' = (frames w' = frames w \<and> peak w' = peak w)"

text \<open>How \<open>dispatch\<close> went from \<open>w\<close> to \<open>w'\<close>.\<close>

definition via :: "nat \<Rightarrow> world \<Rightarrow> future_next \<Rightarrow> world \<Rightarrow> world \<Rightarrow> bool" where
  "via b w nxt w' w2 =
     (\<exists>v w1 d. move_value b w = Some (v, w1)
        \<and> (w2 = w1 \<or> (\<exists>ev. w2 = log_event ev w1))
        \<and> ((\<exists>x. settle d x w2 = Some (nxt, w')) \<or> (\<exists>fut. attach_future fut d w2 = Some (nxt, w'))))"

text \<open>
  A relation that every primitive step respects: then every call respects it.
\<close>

definition respected_inside :: "(world \<Rightarrow> world \<Rightarrow> bool) \<Rightarrow> bool" where
  "respected_inside R =
     ((\<forall>w. R w w)
      \<and> (\<forall>w1 w2 w3. R w1 w2 \<longrightarrow> R w2 w3 \<longrightarrow> R w1 w3)
      \<and> (\<forall>b w v w'. move_value b w = Some (v, w') \<longrightarrow> R w w')
      \<and> (\<forall>ev w. R w (log_event ev w))
      \<and> (\<forall>b c w k w'. state_chain b c w = Some (k, w') \<longrightarrow> R w w')
      \<and> (\<forall>d x w w1 k w'.
            set_value d x w = Some w1 \<longrightarrow> state_next d w1 = Some (k, w') \<longrightarrow> R w w'))"

definition respected :: "(world \<Rightarrow> world \<Rightarrow> bool) \<Rightarrow> bool" where
  "respected R =
     (respected_inside R
      \<and> (\<forall>c b w nxt w'. continue_with c b w = Some (nxt, w') \<longrightarrow> R w w')
      \<and> (\<forall>w. R w (snd (make_shared w)))
      \<and> (\<forall>x w. R w (snd (make_ready x w))))"

section \<open>The types of a catch-continuation\<close>

text \<open>
  The value types of the scenarios in \<open>main\<close>, the types the library reserves, and
  \<open>future<T>\<close>.
\<close>

datatype ctype =
    Void_t
  | Int_t
  | Long_t
  | Unique_ptr_t ctype
  | Future_t ctype
  | Future_void_t
  | Monostate_t
  | Exception_ptr_t

text \<open>
  The traits of the standard library that the source uses, on these types:
  \<open>std::is_convertible\<close> (a type to itself; \<open>int\<close> and \<open>long\<close> to each other),
  \<open>std::common_type_t\<close> (\<open>long\<close> for \<open>int\<close> and \<open>long\<close>; no type otherwise unless the
  two are the same), and the assignment of a \<open>std::variant\<close> from a \<open>std::variant\<close>, which
  exists only between variants of the same alternatives (the converting assignment takes
  a value of one alternative, and no alternative here is constructible from a variant).
\<close>

definition arithmetic :: "ctype \<Rightarrow> bool" where
  "arithmetic t = (t = Int_t \<or> t = Long_t)"

definition is_convertible :: "ctype \<Rightarrow> ctype \<Rightarrow> bool" where
  "is_convertible from to = (from = to \<or> (arithmetic from \<and> arithmetic to))"

definition common_type :: "ctype \<Rightarrow> ctype \<Rightarrow> ctype option" where
  "common_type a b =
     (if a = b then Some a
      else if arithmetic a \<and> arithmetic b then Some Long_t
      else None)"

definition variant_assignable :: "ctype list \<Rightarrow> ctype list \<Rightarrow> bool" where
  "variant_assignable to from = (to = from)"

text \<open>
  The source's own aliases and traits: \<open>future_unwrap_t\<close>, \<open>future_storage_t\<close>,
  \<open>future_value\<close> (the alternatives of the variant), \<open>is_valid_future_result\<close> and
  \<open>future_catch_result_t\<close>, with the return type \<open>r\<close> of the handler.
\<close>

fun future_unwrap :: "ctype \<Rightarrow> ctype" where
  "future_unwrap (Future_t t) = t"
| "future_unwrap t = t"

definition future_storage_t :: "ctype \<Rightarrow> ctype" where
  "future_storage_t t = (if t = Void_t then Future_void_t else t)"

definition future_value_t :: "ctype \<Rightarrow> ctype list" where
  "future_value_t t = [Monostate_t, future_storage_t t, Exception_ptr_t]"

definition is_valid_future_result :: "ctype \<Rightarrow> bool" where
  "is_valid_future_result t =
     (\<not> (is_convertible t Monostate_t \<or> is_convertible t Exception_ptr_t))"

definition future_catch_result_t :: "ctype \<Rightarrow> ctype \<Rightarrow> ctype option" where
  "future_catch_result_t t r = common_type t (future_unwrap r)"

text \<open>
  The two \<open>static_assert\<close>s of \<open>future_catch<T, Func>\<close>, and whether the statement
  \<open>_state->set_value(std::move(value))\<close> of its \<open>continue_with\<close> is well-formed: it assigns
  a \<open>future_value<T>\<close> to the \<open>future_value<result_type>\<close> of the destination.
\<close>

definition future_catch_static_asserts :: "ctype \<Rightarrow> ctype \<Rightarrow> bool" where
  "future_catch_static_asserts t r =
     (case future_catch_result_t t r of
        None \<Rightarrow> False
      | Some result_type \<Rightarrow>
          (result_type = Void_t \<or> is_convertible t result_type)
          \<and> is_valid_future_result result_type)"

definition future_catch_value_path :: "ctype \<Rightarrow> ctype \<Rightarrow> bool" where
  "future_catch_value_path t r =
     (case future_catch_result_t t r of
        None \<Rightarrow> False
      | Some result_type \<Rightarrow>
          variant_assignable (future_value_t result_type) (future_value_t t))"

section \<open>The types of a then-continuation\<close>

text \<open>
  The type of a user function: the types of its parameters and of its result.
  \<open>std::invoke_result_t<Func, Args...>\<close> names the result when the call is well-formed:
  as many arguments as parameters, each convertible to its parameter.
\<close>

record func_t =
  parameters :: "ctype list"
  return_type :: ctype

definition invoke_result :: "func_t \<Rightarrow> ctype list \<Rightarrow> ctype option" where
  "invoke_result f args =
     (if list_all2 is_convertible args (parameters f) then Some (return_type f) else None)"

text \<open>
  \<open>future_invoke_result_t\<close> (the function is called with no argument when \<open>T\<close> is
  \<open>void\<close>), \<open>is_future_v\<close>, \<open>future_then_result_t\<close> and the \<open>static_assert\<close> of
  \<open>future_then<T, Func>\<close>.
\<close>

definition future_invoke_result :: "ctype \<Rightarrow> func_t \<Rightarrow> ctype option" where
  "future_invoke_result t f = (if t = Void_t then invoke_result f [] else invoke_result f [t])"

fun is_future :: "ctype \<Rightarrow> bool" where
  "is_future (Future_t t) = True"
| "is_future t = False"

definition future_then_result_t :: "ctype \<Rightarrow> func_t \<Rightarrow> ctype option" where
  "future_then_result_t t f = map_option future_unwrap (future_invoke_result t f)"

definition future_then_static_asserts :: "ctype \<Rightarrow> func_t \<Rightarrow> bool" where
  "future_then_static_asserts t f =
     (case future_then_result_t t f of
        None \<Rightarrow> False
      | Some result_type \<Rightarrow> is_valid_future_result result_type)"

text \<open>
  \<open>std::get<T>(v)\<close> on a variant is well-formed when \<open>T\<close> is exactly one of its
  alternatives. The two branches of \<open>future_then::continue_with\<close> on a value: the one
  for a function that returns a future,
  \<open>std::invoke(std::move(_func), std::get<T>(std::move(value)))\<close>, and
  \<open>invoke_future_then<result_type, T>\<close>, which tests \<open>std::is_void_v<U>\<close> first. The body
  of \<open>continue_with\<close> is well-formed when the branch that \<open>if constexpr\<close> selects is.
\<close>

definition std_get :: "ctype \<Rightarrow> ctype list \<Rightarrow> bool" where
  "std_get t alternatives = (count_list alternatives t = 1)"

definition future_then_future_branch :: "ctype \<Rightarrow> func_t \<Rightarrow> bool" where
  "future_then_future_branch t f =
     (std_get t (future_value_t t) \<and> invoke_result f [t] \<noteq> None)"

definition invoke_future_then :: "ctype \<Rightarrow> func_t \<Rightarrow> bool" where
  "invoke_future_then u f =
     (if u = Void_t then invoke_result f [] \<noteq> None
      else std_get u (future_value_t u) \<and> invoke_result f [u] \<noteq> None)"

definition future_then_continue_with :: "ctype \<Rightarrow> func_t \<Rightarrow> bool" where
  "future_then_continue_with t f =
     (case future_invoke_result t f of
        None \<Rightarrow> False
      | Some r \<Rightarrow> if is_future r then future_then_future_branch t f else invoke_future_then t f)"

section \<open>The recursive dispatch of \<open>Future.cpp\<close>\<close>

text \<open>
  The earlier implementation, on the same heap and with the same ghost fields. There
  \<open>continue_with\<close> settles its destination and calls \<open>satisfy\<close> on it, which calls the
  next \<open>continue_with\<close>: the calls nest as deep as the chain is long. The depth the
  machine allows is a parameter, the fuel: a run is \<open>Done\<close>, or \<open>Aborted\<close> (an assertion
  fails, an address is no state, an exception escapes), or \<open>Out_of_fuel\<close>.
\<close>

datatype 'a outcome = Out_of_fuel | Aborted | Done 'a



text \<open>
  \<open>future_state::satisfy\<close> and \<open>future_state::chain\<close> of \<open>Future.cpp\<close>, given the virtual
  call \<open>continue_with\<close>: \<open>satisfy\<close> runs the continuation while it still sits in the
  slot and resets the slot afterwards; \<open>chain\<close> runs the continuation at once on a
  ready state and stores it otherwise.
\<close>

type_synonym old_call = "future_continuation \<Rightarrow> nat \<Rightarrow> world \<Rightarrow> world outcome"














subsection \<open>What relates the two implementations\<close>

text \<open>
  A continuation's destination; and the first half of every \<open>continue_with\<close>, common
  to both files: move the value out of the source, call the function, and decide to
  settle the destination or to attach it to the future the function returned.
  \<open>react\<close> is the same decision as a function of the source cell alone.
\<close>

fun dest :: "future_continuation \<Rightarrow> nat" where
  "dest (Future_then f d) = d"
| "dest (Future_catch f d) = d"
| "dest (Future_attach d) = d"

datatype action = Settle future_value | Attach state_ptr

fun front :: "future_continuation \<Rightarrow> nat \<Rightarrow> world \<Rightarrow> (action \<times> world) option" where
  "front (Future_then f d) a w =
     (case move_value a w of
        None \<Rightarrow> None
      | Some (Value v, w1) \<Rightarrow>
          (case f of
             Returns_future g \<Rightarrow>
               if v = Future_void then None
               else
                 (case g v of
                    Inr fut \<Rightarrow> Some (Attach fut, log_event (Invoke_then d v) w1)
                  | Inl ex \<Rightarrow> Some (Settle (Error ex), log_event (Invoke_then d v) w1))
           | Returns g \<Rightarrow>
               (case g v of
                  Inr r \<Rightarrow> Some (Settle (Value r), log_event (Invoke_then d v) w1)
                | Inl ex \<Rightarrow> Some (Settle (Error ex), log_event (Invoke_then d v) w1)))
      | Some (Error e, w1) \<Rightarrow> Some (Settle (Error e), w1)
      | Some (Monostate, w1) \<Rightarrow> None)"
| "front (Future_catch f d) a w =
     (case move_value a w of
        None \<Rightarrow> None
      | Some (Value v, w1) \<Rightarrow> Some (Settle (Value v), w1)
      | Some (Error e, w1) \<Rightarrow>
          (case f of
             Returns_future g \<Rightarrow>
               (case g e of
                  Inr fut \<Rightarrow> Some (Attach fut, log_event (Invoke_catch d e) w1)
                | Inl ex \<Rightarrow> Some (Settle (Error ex), log_event (Invoke_catch d e) w1))
           | Returns g \<Rightarrow>
               (case g e of
                  Inr r \<Rightarrow> Some (Settle (Value r), log_event (Invoke_catch d e) w1)
                | Inl ex \<Rightarrow> Some (Settle (Error ex), log_event (Invoke_catch d e) w1)))
      | Some (Monostate, w1) \<Rightarrow> Some (Settle (Error Bad_variant_access), w1))"
| "front (Future_attach d) a w =
     (case move_value a w of
        None \<Rightarrow> None
      | Some (v, w1) \<Rightarrow> Some (Settle v, w1))"


text \<open>
  The heaps that the interface builds. \<open>P\<close> holds the states that a promise owns and
  \<open>k\<close> is a continuation taken out of its slot and about to run. Every continuation,
  in a slot or taken, has a destination that is allocated, empty and no promise's
  state; no two have the same destination; and a state with a continuation is empty.
\<close>

definition cell :: "nat \<Rightarrow> world \<Rightarrow> future_value" where
  "cell a w = s_value (states w ! a)"

definition slot :: "nat \<Rightarrow> world \<Rightarrow> future_continuation option" where
  "slot a w = s_continuation (states w ! a)"

definition held_ok :: "nat set \<Rightarrow> future_continuation \<Rightarrow> world \<Rightarrow> bool" where
  "held_ok P c w =
     (dest c < length (states w) \<and> cell (dest c) w = Monostate \<and> dest c \<notin> P
      \<and> (\<forall>b < length (states w). \<forall>c'. slot b w = Some c' \<longrightarrow> dest c' \<noteq> dest c))"

definition slots_ok :: "nat set \<Rightarrow> world \<Rightarrow> bool" where
  "slots_ok P w =
     ((\<forall>b < length (states w). \<forall>c. slot b w = Some c \<longrightarrow>
         dest c < length (states w) \<and> cell (dest c) w = Monostate \<and> cell b w = Monostate
         \<and> dest c \<notin> P)
      \<and> (\<forall>b < length (states w). \<forall>b' < length (states w). \<forall>c c'.
            slot b w = Some c \<longrightarrow> slot b' w = Some c' \<longrightarrow> dest c = dest c' \<longrightarrow> b = b')
      \<and> (\<forall>p \<in> P. p < length (states w)))"

definition heap_inv :: "nat set \<Rightarrow> future_continuation option \<Rightarrow> world \<Rightarrow> bool" where
  "heap_inv P k w = (slots_ok P w \<and> (\<forall>c. k = Some c \<longrightarrow> held_ok P c w))"

text \<open>
  The heap of the recursive run against the heap of the trampoline's run, while the
  states in \<open>S\<close> are in the middle of their \<open>satisfy\<close>: the recursive run has their
  continuation still in the slot, the trampoline has taken it. Everything else is equal.
\<close>

definition sim :: "nat set \<Rightarrow> world \<Rightarrow> world \<Rightarrow> bool" where
  "sim S wo wn =
     (trace wo = trace wn \<and> length (states wo) = length (states wn)
      \<and> (\<forall>a < length (states wn).
            cell a wo = cell a wn
            \<and> (if a \<in> S then slot a wn = None \<and> cell a wn \<noteq> Monostate
               else slot a wo = slot a wn))
      \<and> (\<forall>a \<in> S. a < length (states wn)))"




definition below :: "old_call \<Rightarrow> old_call \<Rightarrow> bool" where
  "below cw cw' = (\<forall>c a w w'. cw c a w = Done w' \<longrightarrow> cw' c a w = Done w')"






section \<open>Running the model\<close>

lemma execute_future_None [simp]: "execute_future (None, a) w = Some w"
  by (simp add: execute_future.simps)

lemma execute_future_Some:
  "execute_future (Some c, a) w =
     (case continue_with c a w of None \<Rightarrow> None | Some (nxt, w') \<Rightarrow> execute_future nxt w')"
  by (subst execute_future.simps) simp

named_theorems run_simps

lemmas [run_simps] =
  fut_then_def fut_catch_exception_def fut_attach_def make_promise_def make_ready_future_def
  make_exceptional_future_def make_ready_def make_shared_def world0_def state_chain_def
  state_at_def ready_impl_def put_state_def execute_future_Some continue_with_def enter_def
  leave_def move_value_def settle_def set_value_def finish_def state_next_def log_event_def
  prm_set_value_def prm_set_exception_def prm_set_def prm_destroy_def satisfy_def
  attach_future_def attach_continue_with_def state_ready_def fut_ready_def fut_valid_def
  handle_def attached_step_def satisfied_step_def program0_def settled_def

section \<open>The observers of an invalid handle\<close>

text \<open>
  C10. On a future handle that is invalid (default-constructed, or consumed by \<open>then\<close> or
  \<open>catch_exception\<close>: its \<open>_state\<close> is null), \<open>valid()\<close> is false and \<open>ready()\<close> returns
  false: it returns, whatever the heap is, because \<open>_state && _state->ready()\<close> never
  reaches a state through the null pointer.
\<close>

theorem invalid_future_observers:
  "\<not> fut_valid None \<and> fut_ready None w = Some False"
  by (simp add: fut_valid_def fut_ready_def)

section \<open>Attaching a continuation consumes the handle\<close>

lemma fut_attach_result:
  "fut_attach mk (Some a) w = Some (r, w') \<Longrightarrow> r = Inr (None, Some (length (states w)))"
  by (auto simp: fut_attach_def make_shared_def split: option.splits prod.splits)

text \<open>
  C8. When \<open>then(f)\<close> or \<open>catch_exception(h)\<close> is called on a valid future handle and
  returns, it has not thrown, the handle it was called on is no longer valid, and the
  future it returns is valid. Nothing is assumed of the source state: it may be pending
  or settled.
\<close>

theorem attach_consumes_handle:
  assumes "fut_valid this"
  shows "(fut_then f this w = Some (r, w') \<longrightarrow>
           (\<exists>this' fut. r = Inr (this', fut) \<and> \<not> fut_valid this' \<and> fut_valid fut))
       \<and> (fut_catch_exception h this w = Some (r, w') \<longrightarrow>
           (\<exists>this' fut. r = Inr (this', fut) \<and> \<not> fut_valid this' \<and> fut_valid fut))"
  using assms
  by (auto simp: fut_valid_def fut_then_def fut_catch_exception_def dest!: fut_attach_result)

text \<open>
  The witness: \<open>then\<close> on the pending future of a fresh promise, and \<open>catch_exception\<close>
  on a future that is ready with the value 5; both calls return.
\<close>

theorem attach_consumes_handle_witness:
  "fut_valid (Some 0)
   \<and> (\<exists>r w'. fut_then (Returns (\<lambda>v. Inr v)) (Some 0) (snd (make_promise world0)) = Some (r, w')
        \<and> (\<exists>this' fut. r = Inr (this', fut) \<and> \<not> fut_valid this' \<and> fut_valid fut))
   \<and> (\<exists>r w'. fut_catch_exception (Returns (\<lambda>e. Inr (Integer 5))) (Some 0)
                 (snd (make_ready_future (Integer 5) world0)) = Some (r, w')
        \<and> (\<exists>this' fut. r = Inr (this', fut) \<and> \<not> fut_valid this' \<and> fut_valid fut))"
proof -
  have v: "fut_valid (Some 0)"
    by (simp add: fut_valid_def)
  obtain r1 w1 where
    r1: "fut_then (Returns (\<lambda>v. Inr v)) (Some 0) (snd (make_promise world0)) = Some (r1, w1)"
    by (simp add: run_simps)
  obtain r2 w2 where
    r2: "fut_catch_exception (Returns (\<lambda>e. Inr (Integer 5))) (Some 0)
           (snd (make_ready_future (Integer 5) world0)) = Some (r2, w2)"
    by (simp add: run_simps)
  from attach_consumes_handle [OF v, of "Returns (\<lambda>v. Inr v)" "snd (make_promise world0)" r1 w1] r1
  have c1: "\<exists>this' fut. r1 = Inr (this', fut) \<and> \<not> fut_valid this' \<and> fut_valid fut"
    by blast
  from attach_consumes_handle [OF v, of _ _ r2 w2 "Returns (\<lambda>e. Inr (Integer 5))"] r2
  have c2: "\<exists>this' fut. r2 = Inr (this', fut) \<and> \<not> fut_valid this' \<and> fut_valid fut"
    by blast
  from v r1 c1 r2 c2 show ?thesis
    by blast
qed

section \<open>Every call respects what the primitive steps respect\<close>

lemma viaI1: "move_value b w = Some (v, w1) \<Longrightarrow> settle d x w1 = Some (nxt, w') \<Longrightarrow> via b w nxt w' w1"
  unfolding via_def by blast
lemma viaI2: "move_value b w = Some (v, w1) \<Longrightarrow> settle d x (log_event ev w1) = Some (nxt, w') \<Longrightarrow> via b w nxt w' (log_event ev w1)"
  unfolding via_def by blast
lemma viaI3: "move_value b w = Some (v, w1) \<Longrightarrow> attach_future fut d (log_event ev w1) = Some (nxt, w') \<Longrightarrow> via b w nxt w' (log_event ev w1)"
  unfolding via_def by blast

lemma dispatch_cases:
  assumes "dispatch c b w = Some (nxt, w')"
  shows "\<exists>w2. via b w nxt w' w2"
proof (cases c)
  case (Future_then f d)
  with assms show ?thesis
    by (auto split: option.splits future_value.splits func.splits sum.splits if_splits; blast intro: viaI1 viaI2 viaI3)
next
  case (Future_catch f d)
  with assms show ?thesis
    by (auto split: option.splits future_value.splits func.splits sum.splits; blast intro: viaI1 viaI2 viaI3)
next
  case (Future_attach d)
  with assms show ?thesis
    by (auto simp: attach_continue_with_def split: option.splits; blast intro: viaI1 viaI2 viaI3)
qed


lemma respected_refl: "respected_inside R \<Longrightarrow> R w w"
  by (simp add: respected_inside_def)

lemma respected_trans: "respected_inside R \<Longrightarrow> R w1 w2 \<Longrightarrow> R w2 w3 \<Longrightarrow> R w1 w3"
  unfolding respected_inside_def by metis

lemma respected_set_next:
  "respected_inside R \<Longrightarrow> set_value d x w = Some w1 \<Longrightarrow> state_next d w1 = Some (k, w') \<Longrightarrow> R w w'"
  unfolding respected_inside_def by metis

lemma respected_move: "respected_inside R \<Longrightarrow> move_value b w = Some (v, w') \<Longrightarrow> R w w'"
  unfolding respected_inside_def by metis

lemma respected_log: "respected_inside R \<Longrightarrow> R w (log_event ev w)"
  by (simp add: respected_inside_def)

lemma respected_chain: "respected_inside R \<Longrightarrow> state_chain b c w = Some (k, w') \<Longrightarrow> R w w'"
  unfolding respected_inside_def by metis

lemma respected_inside: "respected R \<Longrightarrow> respected_inside R"
  by (simp add: respected_def)

lemma continue_with_respected: "respected R \<Longrightarrow> continue_with c b w = Some (nxt, w') \<Longrightarrow> R w w'"
  unfolding respected_def by metis

lemma respected_make_shared: "respected R \<Longrightarrow> make_shared w = (a, w') \<Longrightarrow> R w w'"
  unfolding respected_def by (metis snd_conv)

lemma respected_make_ready: "respected R \<Longrightarrow> make_ready x w = (f, w') \<Longrightarrow> R w w'"
  unfolding respected_def by (metis snd_conv)

lemma settle_respected:
  assumes "respected_inside R" and "settle d x w = Some (nxt, w')"
  shows "R w w'"
  using assms(2) respected_set_next [OF assms(1)]
  by (auto simp: settle_def finish_def split: option.splits)

lemma attach_future_respected:
  assumes R: "respected_inside R" and "attach_future src d w = Some (nxt, w')"
  shows "R w w'"
proof (cases src)
  case None
  with assms(2) show ?thesis
    using respected_set_next [OF R]
    by (auto simp: attach_future_def split: option.splits)
next
  case (Some s)
  show ?thesis
  proof (cases "state_ready s w = Some True")
    case True
    with Some assms(2) obtain v w1 w2 k where mv: "move_value s w = Some (v, w1)"
      and sv: "set_value d v w1 = Some w2" and nx: "state_next d w2 = Some (k, w')"
      by (auto simp: attach_future_def split: option.splits)
    from respected_move [OF R mv] respected_set_next [OF R sv nx] show ?thesis
      by (rule respected_trans [OF R])
  next
    case False
    with Some assms(2) obtain k where "state_chain s (Future_attach d) w = Some (k, w')"
      by (auto simp: attach_future_def split: option.splits if_splits)
    then show ?thesis
      by (rule respected_chain [OF R])
  qed
qed

lemma dispatch_respected:
  assumes R: "respected_inside R" and "dispatch c b w = Some (nxt, w')"
  shows "R w w'"
proof -
  from dispatch_cases [OF assms(2)] obtain w2 v w1 d where mv: "move_value b w = Some (v, w1)"
    and w2: "w2 = w1 \<or> (\<exists>ev. w2 = log_event ev w1)"
    and fin: "(\<exists>x. settle d x w2 = Some (nxt, w')) \<or> (\<exists>fut. attach_future fut d w2 = Some (nxt, w'))"
    unfolding via_def by blast
  from R mv have 1: "R w w1"
    by (rule respected_move)
  from w2 have 2: "R w1 w2"
    using respected_refl [OF R] respected_log [OF R] by auto
  from fin have 3: "R w2 w'"
  proof
    assume "\<exists>x. settle d x w2 = Some (nxt, w')"
    then obtain x where "settle d x w2 = Some (nxt, w')" ..
    then show ?thesis by (rule settle_respected [OF R])
  next
    assume "\<exists>fut. attach_future fut d w2 = Some (nxt, w')"
    then obtain fut where "attach_future fut d w2 = Some (nxt, w')" ..
    then show ?thesis by (rule attach_future_respected [OF R])
  qed
  from respected_trans [OF R 1 2] 3 show ?thesis
    by (rule respected_trans [OF R])
qed

lemma respectedI:
  assumes Ri: "respected_inside R"
    and en: "\<And>w. R w (enter w)" and le: "\<And>w. R w (leave w)"
    and ms: "\<And>w. R w (snd (make_shared w))" and mr: "\<And>x w. R w (snd (make_ready x w))"
  shows "respected R"
proof -
  have "R w w'" if "continue_with c b w = Some (nxt, w')" for c b w nxt w'
  proof -
    from that obtain w1 where d: "dispatch c b (enter w) = Some (nxt, w1)" and w': "w' = leave w1"
      by (auto simp: continue_with_def split: option.splits)
    from respected_trans [OF Ri en dispatch_respected [OF Ri d]] le [of w1] w'
    show ?thesis
      by (simp add: respected_trans [OF Ri])
  qed
  with Ri ms mr show ?thesis
    unfolding respected_def by blast
qed

lemma execute_future_respected:
  assumes R: "respected R"
  shows "execute_future nxt w = Some w' \<Longrightarrow> R w w'"
proof (induction nxt w rule: execute_future.induct)
  case (1 nxt w)
  from R have Ri: "respected_inside R"
    by (simp add: respected_def)
  show ?case
  proof (cases "fst nxt")
    case None
    with "1.prems" show ?thesis
      by (simp add: execute_future.simps respected_refl [OF Ri])
  next
    case (Some c)
    with "1.prems"(1) obtain nxt' w1 where
      cw: "continue_with c (snd nxt) w = Some (nxt', w1)" and ex: "execute_future nxt' w1 = Some w'"
      by (subst (asm) execute_future.simps) (auto split: option.splits)
    from continue_with_respected [OF R cw] "1.IH" [OF Some cw refl ex] show ?thesis
      by (rule respected_trans [OF Ri])
  qed
qed

lemma fut_attach_respected:
  assumes R: "respected R" and "fut_attach mk this w = Some (r, w')"
  shows "R w w'"
proof (cases this)
  case None
  with assms show ?thesis
    by (simp add: fut_attach_def respected_def respected_inside_def)
next
  case (Some a)
  from R have Ri: "respected_inside R"
    by (simp add: respected_def)
  from Some assms(2) obtain d w1 nxt w2 where ms: "make_shared w = (d, w1)"
    and ch: "state_chain a (mk d) w1 = Some (nxt, w2)"
    and ex: "execute_future (nxt, a) w2 = Some w'"
    by (auto simp: fut_attach_def split: prod.splits option.splits)
  from respected_trans [OF Ri respected_make_shared [OF R ms] respected_chain [OF Ri ch]]
    execute_future_respected [OF R ex]
  show ?thesis
    by (rule respected_trans [OF Ri])
qed

lemma satisfy_respected:
  assumes R: "respected R" and "satisfy v a w = Some w'"
  shows "R w w'"
proof -
  from R have Ri: "respected_inside R"
    by (simp add: respected_def)
  from assms(2) obtain w1 nxt w2 where sv: "set_value a v w = Some w1"
    and nx: "state_next a w1 = Some (nxt, w2)" and ex: "execute_future (nxt, a) w2 = Some w'"
    by (auto simp: satisfy_def split: option.splits)
  from respected_set_next [OF Ri sv nx] execute_future_respected [OF R ex] show ?thesis
    by (rule respected_trans [OF Ri])
qed

lemma prm_set_respected:
  assumes R: "respected R" and "prm_set v this w = Some (r, w')"
  shows "R w w'"
  using assms(2) satisfy_respected [OF R] respected_refl [OF respected_inside [OF R]]
  by (auto simp: prm_set_def split: option.splits)

lemma prm_destroy_respected:
  assumes R: "respected R" and "prm_destroy this w = Some w'"
  shows "R w w'"
  using assms(2) satisfy_respected [OF R] respected_refl [OF respected_inside [OF R]]
  by (auto simp: prm_destroy_def split: option.splits)

lemma api_step_respected:
  assumes R: "respected R" and "api_step x ps = Some ps'"
  shows "R (heap ps) (heap ps')"
proof (cases x)
  case Make_promise
  with assms(2) show ?thesis
    by (auto simp: make_promise_def split: prod.splits dest: respected_make_shared [OF R])
next
  case (Make_ready_future v)
  with assms(2) show ?thesis
    by (auto simp: make_ready_future_def split: prod.splits dest: respected_make_ready [OF R])
next
  case (Make_exceptional_future ex)
  with assms(2) show ?thesis
    by (auto simp: make_exceptional_future_def split: prod.splits
             dest: respected_make_ready [OF R])
next
  case (Then i f)
  with assms(2) show ?thesis
    by (auto simp: attached_step_def fut_then_def split: option.splits sum.splits prod.splits
             dest: fut_attach_respected [OF R])
next
  case (Catch_exception i f)
  with assms(2) show ?thesis
    by (auto simp: attached_step_def fut_catch_exception_def
             split: option.splits sum.splits prod.splits dest: fut_attach_respected [OF R])
next
  case (Set_value i v)
  with assms(2) show ?thesis
    by (auto simp: satisfied_step_def prm_set_value_def
             split: option.splits sum.splits prod.splits dest: prm_set_respected [OF R])
next
  case (Set_exception i ex)
  with assms(2) show ?thesis
    by (auto simp: satisfied_step_def prm_set_exception_def
             split: option.splits sum.splits prod.splits dest: prm_set_respected [OF R])
next
  case (Destroy_promise i)
  with assms(2) show ?thesis
    by (auto split: option.splits dest: prm_destroy_respected [OF R])
qed

lemma run_respected:
  assumes R: "respected R"
  shows "run xs ps = Some ps' \<Longrightarrow> R (heap ps) (heap ps')"
proof (induction xs arbitrary: ps)
  case Nil
  then show ?case by (simp add: respected_refl [OF respected_inside [OF R]])
next
  case (Cons x xs)
  then obtain ps1 where st: "api_step x ps = Some ps1" and rn: "run xs ps1 = Some ps'"
    by (auto split: option.splits)
  from api_step_respected [OF R st] Cons.IH [OF rn] show ?case
    by (rule respected_trans [OF respected_inside [OF R]])
qed


subsection \<open>Four relations that every call respects\<close>

lemmas primitive_defs =
  move_value_def log_event_def state_chain_def set_value_def state_next_def state_at_def
  put_state_def make_shared_def make_ready_def enter_def leave_def


lemma respected_inside_same_depth: "respected_inside same_depth"
  by (auto simp: respected_inside_def same_depth_def primitive_defs split: option.splits if_splits)

lemma respected_depth_bounded: "respected depth_bounded"
proof -
  have "depth_bounded w w'" if "continue_with c b w = Some (nxt, w')" for c b w nxt w'
  proof -
    from that obtain w1 where d: "dispatch c b (enter w) = Some (nxt, w1)" and w': "w' = leave w1"
      by (auto simp: continue_with_def split: option.splits)
    from dispatch_respected [OF respected_inside_same_depth d] w' show ?thesis
      by (simp add: same_depth_def depth_bounded_def enter_def leave_def)
  qed
  moreover have "respected_inside depth_bounded"
    by (auto simp: respected_inside_def depth_bounded_def primitive_defs
             split: option.splits if_splits)
  ultimately show ?thesis
    unfolding respected_def by (auto simp: depth_bounded_def primitive_defs)
qed


lemma index_moved_from [simp]: "index (moved_from v) = index v"
  by (cases v) simp_all


lemma respected_keeps_settled: "respected keeps_settled"
  by (rule respectedI)
     (auto simp: respected_inside_def keeps_settled_def settled_def state_ready_def
                 primitive_defs ready_impl_def nth_list_update nth_append
           split: option.splits if_splits)

section \<open>The cell never returns to empty\<close>

lemma leaves_empty_settled:
  "settled a (heap ps) \<Longrightarrow> leaves_empty a xs ps = Some n \<Longrightarrow> n = 0"
proof (induction xs arbitrary: ps n)
  case Nil
  then show ?case by simp
next
  case (Cons x xs)
  from Cons.prems(2) obtain ps1 m where st: "api_step x ps = Some ps1"
    and m: "leaves_empty a xs ps1 = Some m"
    and n: "n = m + (if \<not> settled a (heap ps) \<and> settled a (heap ps1) then 1 else 0)"
    by (auto split: option.splits)
  from api_step_respected [OF respected_keeps_settled st] Cons.prems(1)
  have "settled a (heap ps1)"
    by (simp add: keeps_settled_def)
  with Cons.IH [OF _ m] n Cons.prems(1) show ?case by simp
qed

lemma leaves_empty_once: "leaves_empty a xs ps = Some n \<Longrightarrow> n \<le> 1"
proof (induction xs arbitrary: ps n)
  case Nil
  then show ?case by simp
next
  case (Cons x xs)
  from Cons.prems obtain ps1 m where st: "api_step x ps = Some ps1"
    and m: "leaves_empty a xs ps1 = Some m"
    and n: "n = m + (if \<not> settled a (heap ps) \<and> settled a (heap ps1) then 1 else 0)"
    by (auto split: option.splits)
  show ?case
  proof (cases "settled a (heap ps1)")
    case True
    with leaves_empty_settled [OF _ m] n show ?thesis by simp
  next
    case False
    with Cons.IH [OF m] n show ?thesis by simp
  qed
qed

lemma leaves_empty_defined: "run xs ps = Some ps' \<Longrightarrow> \<exists>n. leaves_empty a xs ps = Some n"
  by (induction xs arbitrary: ps) (auto split: option.splits)

text \<open>
  C7. Along every program over the public interface, from any state of the heap: a cell
  that holds a value or an error before the program holds one after it (\<open>ready()\<close> stays
  true; the hand-off \<open>move_value\<close> of the cell to a continuation leaves the alternative
  of the variant in place), and the cell leaves \<open>Empty\<close> in at most one call of the
  program, so each of \<open>Empty \<rightarrow> Value\<close> and \<open>Empty \<rightarrow> Error\<close> happens at most once.
\<close>

theorem cell_never_returns_to_empty:
  assumes "run xs ps = Some ps'"
  shows "(settled a (heap ps) \<longrightarrow> settled a (heap ps'))
       \<and> (\<exists>n. leaves_empty a xs ps = Some n \<and> n \<le> 1)"
  using run_respected [OF respected_keeps_settled assms] leaves_empty_defined [OF assms, of a]
    leaves_empty_once [of a xs ps]
  by (auto simp: keeps_settled_def)

text \<open>
  The witness: a promise is satisfied with 5, then a continuation is attached and takes
  the value out of the cell 0. The cell is settled before and after the hand-off, and it
  left \<open>Empty\<close> once.
\<close>

theorem cell_never_returns_to_empty_witness:
  "run [Then 0 (Returns (\<lambda>v. Inr v))] (the (run [Make_promise, Set_value 0 (Integer 5)] program0))
     \<noteq> None
   \<and> settled 0 (heap (the (run [Make_promise, Set_value 0 (Integer 5)] program0)))
   \<and> settled 0 (heap (the (run [Then 0 (Returns (\<lambda>v. Inr v))]
                              (the (run [Make_promise, Set_value 0 (Integer 5)] program0)))))
   \<and> leaves_empty 0 [Make_promise, Set_value 0 (Integer 5), Then 0 (Returns (\<lambda>v. Inr v))] program0
       = Some 1"
  using cell_never_returns_to_empty
    [of "[Then 0 (Returns (\<lambda>v. Inr v))]" "the (run [Make_promise, Set_value 0 (Integer 5)] program0)"
        "the (run [Then 0 (Returns (\<lambda>v. Inr v))]
                (the (run [Make_promise, Set_value 0 (Integer 5)] program0)))" 0]
  by (simp add: run_simps)

section \<open>Draining a chain\<close>

lemma then_states_head:
  "\<exists>k1 ss. then_states n gs k = \<lparr>s_value = Monostate, s_continuation = k1\<rparr> # ss"
  by (cases gs) simp_all

lemma length_then_states [simp]: "length (then_states n gs k) = Suc (length gs)"
  by (induction gs arbitrary: n) simp_all

lemma length_drained [simp]: "length (drained x gs) = Suc (length gs)"
  by (induction gs arbitrary: x) simp_all

text \<open>One step of the drain: the state at n is settled with x, its then-continuation runs.\<close>

lemmas step_simps =
  satisfy_def set_value_def state_at_def put_state_def state_next_def ready_impl_def
  execute_future_Some continue_with_def enter_def leave_def move_value_def settle_def
  finish_def nth_append list_update_append log_event_def

lemma satisfy_step:
  assumes st: "states w = pre @ \<lparr>s_value = Monostate, s_continuation = Some (Future_then g (Suc (length pre)))\<rparr>
                 # \<lparr>s_value = Monostate, s_continuation = k1\<rparr> # ss"
    and x: "x \<noteq> Monostate" and y: "then_outcome g x \<noteq> Monostate"
  shows "satisfy x (length pre) w =
         satisfy (then_outcome g x) (Suc (length pre))
           \<lparr>states = (pre @ [\<lparr>s_value = moved_from x, s_continuation = None\<rparr>])
                          @ \<lparr>s_value = Monostate, s_continuation = k1\<rparr> # ss,
              trace = trace w @ (case x of Value v \<Rightarrow> [Invoke_then (Suc (length pre)) v] | _ \<Rightarrow> []),
              frames = frames w,
              peak = max (peak w) (Suc (frames w))\<rparr>"
proof (cases w)
  case (fields sts tr fr pk)
  with st have sts: "sts = pre @ \<lparr>s_value = Monostate, s_continuation = Some (Future_then g (Suc (length pre)))\<rparr>
                 # \<lparr>s_value = Monostate, s_continuation = k1\<rparr> # ss"
    by simp
  show ?thesis
  proof (cases x)
    case Monostate
    with x show ?thesis by simp
  next
    case (Error e)
    show ?thesis
      by (simp add: Error fields sts step_simps)
  next
    case (Value v)
    show ?thesis
    proof (cases g)
      case (Returns h)
      show ?thesis
        by (cases "h v") (simp_all add: Value Returns fields sts step_simps)
    next
      case (Returns_future h)
      from y Value Returns_future have nv: "v \<noteq> Future_void"
        by (auto split: if_splits)
      show ?thesis
      proof (cases "h v")
        case (Inl ex)
        show ?thesis
          by (simp add: Value Returns_future Inl nv fields sts step_simps)
      next
        case (Inr r)
        with y Value Returns_future nv show ?thesis by simp
      qed
    qed
  qed
qed

lemma satisfy_last:
  assumes st: "states w = pre @ \<lparr>s_value = Monostate, s_continuation = k\<rparr> # ss"
    and x: "x \<noteq> Monostate"
  shows "satisfy x (length pre) w =
         execute_future (k, length pre)
           \<lparr>states = pre @ \<lparr>s_value = x, s_continuation = None\<rparr> # ss,
            trace = trace w, frames = frames w, peak = peak w\<rparr>"
proof (cases w)
  case (fields sts tr fr pk)
  with st x show ?thesis
    by (cases x) (simp_all add: satisfy_def set_value_def state_at_def put_state_def
                     state_next_def ready_impl_def)
qed

text \<open>The whole drain.\<close>

lemma satisfy_drain:
  assumes "states w = pre @ then_states (length pre) gs k @ ss" and "settles x gs"
  shows "satisfy x (length pre) w =
         execute_future (k, length pre + length gs)
           \<lparr>states = pre @ drained x gs @ ss,
            trace = trace w @ then_events (length pre) x gs,
            frames = frames w,
            peak = (if gs = [] then peak w else max (peak w) (Suc (frames w)))\<rparr>"
  using assms
proof (induction gs arbitrary: pre w x)
  case Nil
  then show ?case
    using satisfy_last [of w pre k ss x] by simp
next
  case (Cons g gs)
  obtain k1 ts where ts: "then_states (Suc (length pre)) gs k = \<lparr>s_value = Monostate, s_continuation = k1\<rparr> # ts"
    using then_states_head by blast
  let ?w = "\<lparr>states = (pre @ [\<lparr>s_value = moved_from x, s_continuation = None\<rparr>])
                          @ \<lparr>s_value = Monostate, s_continuation = k1\<rparr> # ts @ ss,
              trace = trace w @ (case x of Value v \<Rightarrow> [Invoke_then (Suc (length pre)) v] | _ \<Rightarrow> []),
              frames = frames w,
              peak = max (peak w) (Suc (frames w))\<rparr>"
  from Cons.prems have x: "x \<noteq> Monostate" and y: "settles (then_outcome g x) gs"
    by simp_all
  from y have y': "then_outcome g x \<noteq> Monostate"
    by (cases gs) simp_all
  from Cons.prems(1) ts have "satisfy x (length pre) w = satisfy (then_outcome g x) (Suc (length pre)) ?w"
    using satisfy_step [of w pre g k1 "ts @ ss" x, OF _ x y'] by simp
  also have "\<dots> = execute_future (k, length (pre @ [\<lparr>s_value = moved_from x, s_continuation = None\<rparr>]) + length gs)
           \<lparr>states = (pre @ [\<lparr>s_value = moved_from x, s_continuation = None\<rparr>]) @ drained (then_outcome g x) gs @ ss,
            trace = trace ?w @ then_events (length (pre @ [\<lparr>s_value = moved_from x, s_continuation = None\<rparr>])) (then_outcome g x) gs,
            frames = frames ?w,
            peak = (if gs = [] then peak ?w else max (peak ?w) (Suc (frames ?w)))\<rparr>"
    using Cons.IH [of ?w "pre @ [\<lparr>s_value = moved_from x, s_continuation = None\<rparr>]" "then_outcome g x", OF _ y] ts
    by simp
  finally show ?case
    by simp
qed


lemma then_outcome_Error [simp]: "then_outcome g (Error e) = Error e"
  by (cases g) simp_all

lemma settles_Error [simp]: "settles (Error e) gs"
  by (induction gs) simp_all

lemma then_events_Error [simp]: "then_events n (Error e) gs = []"
  by (induction gs arbitrary: n) simp_all

lemma then_outcome_Returns: "x \<noteq> Monostate \<Longrightarrow> then_outcome (Returns f) x \<noteq> Monostate"
  by (cases x) (simp_all split: sum.splits)

lemma settles_Returns: "x \<noteq> Monostate \<Longrightarrow> settles x (map Returns fs)"
  by (induction fs arbitrary: x) (simp_all add: then_outcome_Returns)

lemma then_states_last [simp]:
  "(then_states n gs k)[length gs := \<lparr>s_value = Monostate, s_continuation = k'\<rparr>]
   = then_states n gs k'"
  by (induction gs arbitrary: n) simp_all

lemma then_states_nth_last [simp]:
  "then_states n gs k ! length gs = \<lparr>s_value = Monostate, s_continuation = k\<rparr>"
  by (induction gs arbitrary: n) simp_all

text \<open>Attaching to a future that is pending and has no continuation yet.\<close>

lemma fut_attach_pending:
  assumes "state_at a w = Some \<lparr>s_value = Monostate, s_continuation = None\<rparr>"
  shows "fut_attach mk (Some a) w =
         Some (Inr (None, Some (length (states w))),
               w\<lparr>states := (states w)[a := \<lparr>s_value = Monostate, s_continuation = Some (mk (length (states w)))\<rparr>]
                             @ [\<lparr>s_value = Monostate, s_continuation = None\<rparr>]\<rparr>)"
  using assms
  by (cases w)
     (auto simp: fut_attach_def make_shared_def state_chain_def state_at_def put_state_def
                 ready_impl_def nth_append list_update_append split: if_splits)

lemma then_states_append_then:
  "then_states n (gs @ [g]) None
   = then_states n gs (Some (Future_then g (Suc (n + length gs))))
     @ [\<lparr>s_value = Monostate, s_continuation = None\<rparr>]"
  by (induction gs arbitrary: n) simp_all

lemma then_chain_append:
  "then_chain (gs @ hs) fut w =
     (case then_chain gs fut w of None \<Rightarrow> None | Some (fut', w') \<Rightarrow> then_chain hs fut' w')"
  by (induction gs arbitrary: fut w) (auto split: option.splits sum.splits prod.splits)

lemma then_chain_pending:
  assumes "states w = pre @ [\<lparr>s_value = Monostate, s_continuation = None\<rparr>]"
  shows "then_chain gs (Some (length pre)) w =
         Some (Some (length pre + length gs), w\<lparr>states := pre @ then_states (length pre) gs None\<rparr>)"
  using assms
proof (induction gs rule: rev_induct)
  case Nil
  then show ?case by (cases w) simp
next
  case (snoc g gs)
  let ?w = "w\<lparr>states := pre @ then_states (length pre) gs None\<rparr>"
  have at: "state_at (length pre + length gs) ?w = Some \<lparr>s_value = Monostate, s_continuation = None\<rparr>"
    by (simp add: state_at_def)
  show ?case
    using snoc.IH [OF snoc.prems] fut_attach_pending [OF at, of "Future_then g"]
    by (simp add: then_chain_append fut_then_def then_states_append_then list_update_append)
qed


lemma then_step:
  assumes "a < length (states w)" "d < length (states w)" "a \<noteq> d"
    and "states w ! a = \<lparr>s_value = x, s_continuation = ka\<rparr>"
    and "states w ! d = \<lparr>s_value = Monostate, s_continuation = k\<rparr>"
    and "then_outcome g x \<noteq> Monostate"
  shows "continue_with (Future_then g d) a w =
         Some ((k, d),
               \<lparr>states = (states w)[a := \<lparr>s_value = moved_from x, s_continuation = ka\<rparr>,
                                    d := \<lparr>s_value = then_outcome g x, s_continuation = None\<rparr>],
                trace = trace w @ (case x of Value v \<Rightarrow> [Invoke_then d v] | _ \<Rightarrow> []),
                frames = frames w,
                peak = max (peak w) (Suc (frames w))\<rparr>)"
proof (cases w)
  case (fields sts tr fr pk)
  note simps = fields continue_with_def enter_def leave_def move_value_def settle_def
      set_value_def state_at_def put_state_def finish_def state_next_def ready_impl_def
      log_event_def
  show ?thesis
  proof (cases x)
    case Monostate
    with assms show ?thesis by (cases g) simp_all
  next
    case (Error e)
    with assms show ?thesis by (simp add: simps)
  next
    case (Value v)
    show ?thesis
    proof (cases g)
      case (Returns h)
      with assms Value show ?thesis
        by (cases "h v") (simp_all add: simps)
    next
      case (Returns_future h)
      with assms(6) Value have nv: "v \<noteq> Future_void"
        by (auto split: if_splits)
      with assms Value Returns_future show ?thesis
        by (cases "h v") (simp_all add: simps)
    qed
  qed
qed

lemma catch_step:
  assumes "a < length (states w)" "d < length (states w)" "a \<noteq> d"
    and "states w ! a = \<lparr>s_value = x, s_continuation = ka\<rparr>"
    and "states w ! d = \<lparr>s_value = Monostate, s_continuation = k\<rparr>"
    and "catch_outcome h x \<noteq> Monostate"
  shows "continue_with (Future_catch h d) a w =
         Some ((k, d),
               \<lparr>states = (states w)[a := \<lparr>s_value = moved_from x, s_continuation = ka\<rparr>,
                                    d := \<lparr>s_value = catch_outcome h x, s_continuation = None\<rparr>],
                trace = trace w @ (case x of Error e \<Rightarrow> [Invoke_catch d e] | _ \<Rightarrow> []),
                frames = frames w,
                peak = max (peak w) (Suc (frames w))\<rparr>)"
proof (cases w)
  case (fields sts tr fr pk)
  note simps = fields continue_with_def enter_def leave_def move_value_def settle_def
      set_value_def state_at_def put_state_def finish_def state_next_def ready_impl_def
      log_event_def
  show ?thesis
  proof (cases x)
    case Monostate
    with assms show ?thesis by (simp add: simps)
  next
    case (Value v)
    with assms show ?thesis by (simp add: simps)
  next
    case (Error e)
    show ?thesis
    proof (cases h)
      case (Returns g)
      with assms Error show ?thesis
        by (cases "g e") (simp_all add: simps)
    next
      case (Returns_future g)
      with assms Error show ?thesis
        by (cases "g e") (simp_all add: simps)
    qed
  qed
qed

text \<open>Attaching to a future that is settled: the continuation runs at once.\<close>

lemma fut_then_ready:
  assumes "state_at a w = Some \<lparr>s_value = x, s_continuation = None\<rparr>"
    and "x \<noteq> Monostate" and "then_outcome g x \<noteq> Monostate"
  shows "fut_then g (Some a) w =
         Some (Inr (None, Some (length (states w))),
               \<lparr>states = (states w)[a := \<lparr>s_value = moved_from x, s_continuation = None\<rparr>]
                             @ [\<lparr>s_value = then_outcome g x, s_continuation = None\<rparr>],
                trace = trace w @ (case x of Value v \<Rightarrow> [Invoke_then (length (states w)) v] | _ \<Rightarrow> []),
                frames = frames w,
                peak = max (peak w) (Suc (frames w))\<rparr>)"
proof -
  let ?w1 = "w\<lparr>states := states w @ [\<lparr>s_value = Monostate, s_continuation = None\<rparr>]\<rparr>"
  from assms(1) have a: "a < length (states w)"
    and sa: "states w ! a = \<lparr>s_value = x, s_continuation = None\<rparr>"
    by (auto simp: state_at_def split: if_splits)
  have ch: "state_chain a (Future_then g (length (states w))) ?w1
            = Some (Some (Future_then g (length (states w))), ?w1)"
    using a sa assms(2)
    by (cases x) (simp_all add: state_chain_def state_at_def nth_append ready_impl_def)
  have st: "continue_with (Future_then g (length (states w))) a ?w1 = Some ((None, length (states w)),
               \<lparr>states = (states ?w1)[a := \<lparr>s_value = moved_from x, s_continuation = None\<rparr>,
                                    length (states w) := \<lparr>s_value = then_outcome g x, s_continuation = None\<rparr>],
                trace = trace ?w1 @ (case x of Value v \<Rightarrow> [Invoke_then (length (states w)) v] | _ \<Rightarrow> []),
                frames = frames ?w1,
                peak = max (peak ?w1) (Suc (frames ?w1))\<rparr>)"
    using a sa assms(3) by (intro then_step) (simp_all add: nth_append)
  show ?thesis
    using a by (simp add: fut_then_def fut_attach_def make_shared_def ch execute_future_Some st
                  list_update_append)
qed

lemma fut_catch_ready:
  assumes "state_at a w = Some \<lparr>s_value = x, s_continuation = None\<rparr>"
    and "x \<noteq> Monostate" and "catch_outcome h x \<noteq> Monostate"
  shows "fut_catch_exception h (Some a) w =
         Some (Inr (None, Some (length (states w))),
               \<lparr>states = (states w)[a := \<lparr>s_value = moved_from x, s_continuation = None\<rparr>]
                             @ [\<lparr>s_value = catch_outcome h x, s_continuation = None\<rparr>],
                trace = trace w @ (case x of Error e \<Rightarrow> [Invoke_catch (length (states w)) e] | _ \<Rightarrow> []),
                frames = frames w,
                peak = max (peak w) (Suc (frames w))\<rparr>)"
proof -
  let ?w1 = "w\<lparr>states := states w @ [\<lparr>s_value = Monostate, s_continuation = None\<rparr>]\<rparr>"
  from assms(1) have a: "a < length (states w)"
    and sa: "states w ! a = \<lparr>s_value = x, s_continuation = None\<rparr>"
    by (auto simp: state_at_def split: if_splits)
  have ch: "state_chain a (Future_catch h (length (states w))) ?w1
            = Some (Some (Future_catch h (length (states w))), ?w1)"
    using a sa assms(2)
    by (cases x) (simp_all add: state_chain_def state_at_def nth_append ready_impl_def)
  have st: "continue_with (Future_catch h (length (states w))) a ?w1 = Some ((None, length (states w)),
               \<lparr>states = (states ?w1)[a := \<lparr>s_value = moved_from x, s_continuation = None\<rparr>,
                                    length (states w) := \<lparr>s_value = catch_outcome h x, s_continuation = None\<rparr>],
                trace = trace ?w1 @ (case x of Error e \<Rightarrow> [Invoke_catch (length (states w)) e] | _ \<Rightarrow> []),
                frames = frames ?w1,
                peak = max (peak ?w1) (Suc (frames ?w1))\<rparr>)"
    using a sa assms(3) by (intro catch_step) (simp_all add: nth_append)
  show ?thesis
    using a by (simp add: fut_catch_exception_def fut_attach_def make_shared_def ch
                  execute_future_Some st list_update_append)
qed

lemma drained_last [simp]:
  "drained x gs ! length gs = \<lparr>s_value = chain_outcome x gs, s_continuation = None\<rparr>"
  by (induction gs arbitrary: x) simp_all

lemma settles_outcome: "settles x gs \<Longrightarrow> chain_outcome x gs \<noteq> Monostate"
  by (induction gs arbitrary: x) simp_all

lemma then_chain_ready:
  assumes "states w = pre @ [\<lparr>s_value = x, s_continuation = None\<rparr>]" and "settles x gs"
  shows "then_chain gs (Some (length pre)) w =
         Some (Some (length pre + length gs),
               \<lparr>states = pre @ drained x gs,
                trace = trace w @ then_events (length pre) x gs,
                frames = frames w,
                peak = (if gs = [] then peak w else max (peak w) (Suc (frames w)))\<rparr>)"
  using assms
proof (induction gs arbitrary: pre w x)
  case Nil
  then show ?case by (cases w) simp
next
  case (Cons g gs)
  from Cons.prems have x: "x \<noteq> Monostate" and y: "settles (then_outcome g x) gs"
    by simp_all
  from y have y': "then_outcome g x \<noteq> Monostate"
    by (cases gs) simp_all
  let ?pre = "pre @ [\<lparr>s_value = moved_from x, s_continuation = None\<rparr>]"
  let ?w = "\<lparr>states = ?pre @ [\<lparr>s_value = then_outcome g x, s_continuation = None\<rparr>],
                trace = trace w @ (case x of Value v \<Rightarrow> [Invoke_then (Suc (length pre)) v] | _ \<Rightarrow> []),
                frames = frames w,
                peak = max (peak w) (Suc (frames w))\<rparr>"
  have at: "state_at (length pre) w = Some \<lparr>s_value = x, s_continuation = None\<rparr>"
    using Cons.prems(1) by (simp add: state_at_def)
  have "fut_then g (Some (length pre)) w = Some (Inr (None, Some (Suc (length pre))), ?w)"
    using fut_then_ready [OF at x y'] Cons.prems(1) by (cases x) simp_all
  moreover have "then_chain gs (Some (length ?pre)) ?w =
         Some (Some (length ?pre + length gs),
               \<lparr>states = ?pre @ drained (then_outcome g x) gs,
                trace = trace ?w @ then_events (length ?pre) (then_outcome g x) gs,
                frames = frames ?w,
                peak = (if gs = [] then peak ?w else max (peak ?w) (Suc (frames ?w)))\<rparr>)"
    by (rule Cons.IH [OF _ y]) simp
  ultimately show ?case
    by simp
qed

lemma drained_Error:
  "drained (Error e) gs
   = replicate (length gs) \<lparr>s_value = Error Null_exception, s_continuation = None\<rparr>
     @ [\<lparr>s_value = Error e, s_continuation = None\<rparr>]"
  by (induction gs) simp_all

lemma resolved_after_attach_eq:
  assumes "settles x gs"
  shows "resolved_after_attach gs x w =
         Some \<lparr>states = states w @ drained x gs,
               trace = trace w @ then_events (length (states w)) x gs,
               frames = frames w,
               peak = (if gs = [] then peak w else max (peak w) (Suc (frames w)))\<rparr>"
proof -
  let ?w0 = "w\<lparr>states := states w @ [\<lparr>s_value = Monostate, s_continuation = None\<rparr>]\<rparr>"
  let ?w1 = "?w0\<lparr>states := states w @ then_states (length (states w)) gs None\<rparr>"
  have ch: "then_chain gs (Some (length (states w))) ?w0 = Some (Some (length (states w) + length gs), ?w1)"
    by (rule then_chain_pending) simp
  have "satisfy x (length (states w)) ?w1 =
         execute_future (None, length (states w) + length gs)
           \<lparr>states = states w @ drained x gs @ [],
            trace = trace ?w1 @ then_events (length (states w)) x gs,
            frames = frames ?w1,
            peak = (if gs = [] then peak ?w1 else max (peak ?w1) (Suc (frames ?w1)))\<rparr>"
    by (rule satisfy_drain [OF _ assms]) simp
  then show ?thesis
    by (simp add: resolved_after_attach_def make_promise_def make_shared_def ch prm_set_def)
qed

lemma resolved_before_attach_eq:
  assumes "settles x gs"
  shows "resolved_before_attach gs x w =
         Some \<lparr>states = states w @ drained x gs,
               trace = trace w @ then_events (length (states w)) x gs,
               frames = frames w,
               peak = (if gs = [] then peak w else max (peak w) (Suc (frames w)))\<rparr>"
proof -
  let ?w0 = "w\<lparr>states := states w @ [\<lparr>s_value = x, s_continuation = None\<rparr>]\<rparr>"
  have "then_chain gs (Some (length (states w))) ?w0 =
         Some (Some (length (states w) + length gs),
               \<lparr>states = states w @ drained x gs,
                trace = trace ?w0 @ then_events (length (states w)) x gs,
                frames = frames ?w0,
                peak = (if gs = [] then peak ?w0 else max (peak ?w0) (Suc (frames ?w0)))\<rparr>)"
    by (rule then_chain_ready [OF _ assms]) simp
  then show ?thesis
    by (simp add: resolved_before_attach_def make_ready_def make_shared_def put_state_def)
qed

lemma drained_all_settled:
  "settles x gs \<Longrightarrow> list_all (\<lambda>s. ready_impl s \<and> s_continuation s = None) (drained x gs)"
proof (induction gs arbitrary: x)
  case Nil
  then show ?case by (cases x) (simp_all add: ready_impl_def)
next
  case (Cons g gs)
  then show ?case by (cases x) (simp_all add: ready_impl_def)
qed

section \<open>An error passes every then-continuation\<close>

text \<open>A catch-continuation whose destination has no continuation yet, on an error.\<close>

lemma attach_future_unchained:
  assumes "attach_future fut d w = Some ((k, b), w')"
    and "d < length (states w)" and "s_continuation (states w ! d) = None"
  shows "k = None \<and> trace w' = trace w"
  using assms
  by (cases w)
     (auto simp: attach_future_def state_ready_def state_chain_def move_value_def set_value_def
                 state_next_def state_at_def put_state_def nth_list_update
           split: option.splits if_splits)

lemma catch_error_step:
  assumes a: "a < length (states w)" and d: "d < length (states w)" and ad: "a \<noteq> d"
    and sa: "s_value (states w ! a) = Error e"
    and sd: "s_continuation (states w ! d) = None"
    and cw: "continue_with (Future_catch h d) a w = Some ((k, b), w')"
  shows "k = None \<and> trace w' = trace w @ [Invoke_catch d e]"
proof -
  let ?w1 = "log_event (Invoke_catch d e)
               (put_state a ((states w ! a)\<lparr>s_value := Error Null_exception\<rparr>) (enter w))"
  have d1: "d < length (states ?w1)" and s1: "s_continuation (states ?w1 ! d) = None"
    and t1: "trace ?w1 = trace w @ [Invoke_catch d e]"
    using a d ad sd by (simp_all add: log_event_def put_state_def enter_def)
  have mv: "move_value a (enter w)
            = Some (Error e, put_state a ((states w ! a)\<lparr>s_value := Error Null_exception\<rparr>) (enter w))"
    using a sa by (simp add: move_value_def state_at_def enter_def)
  from cw obtain w2 where
    *: "(\<exists>x. settle d x ?w1 = Some ((k, b), w2)) \<or> (\<exists>fut. attach_future fut d ?w1 = Some ((k, b), w2))"
    and w': "w' = leave w2"
    by (auto simp: continue_with_def mv split: option.splits func.splits sum.splits)
  from * have "k = None \<and> trace w2 = trace ?w1"
  proof
    assume "\<exists>x. settle d x ?w1 = Some ((k, b), w2)"
    then show ?thesis
      using d1 s1
      by (auto simp: settle_def finish_def set_value_def state_next_def state_at_def put_state_def
               split: option.splits if_splits)
  next
    assume "\<exists>fut. attach_future fut d ?w1 = Some ((k, b), w2)"
    then show ?thesis
      using attach_future_unchained [OF _ d1 s1] by blast
  qed
  with t1 w' show ?thesis
    by (simp add: leave_def)
qed


lemma chain_outcome_Error [simp]: "chain_outcome (Error e) gs = Error e"
  by (induction gs) simp_all

lemma then_error_step:
  assumes "a < length (states w)" and "s_value (states w ! a) = Error e"
    and "continue_with (Future_then g d) a w = Some (nxt, w')"
  shows "trace w' = trace w \<and> map_option s_value (state_at d w') = Some (Error e)"
  using assms
  by (cases w)
     (auto simp: continue_with_def move_value_def settle_def finish_def set_value_def
                 state_next_def state_at_def put_state_def enter_def leave_def nth_list_update
           split: option.splits if_splits)

lemma rejected_after_attach_eq:
  "rejected_after_attach gs h e w =
     execute_future
       (Some (Future_catch h (Suc (length (states w) + length gs))), length (states w) + length gs)
       (before_catch gs e w (if gs = [] then peak w else max (peak w) (Suc (frames w))))"
proof -
  let ?n = "length (states w)"
  let ?c = "Suc (?n + length gs)"
  let ?w0 = "w\<lparr>states := states w @ [\<lparr>s_value = Monostate, s_continuation = None\<rparr>]\<rparr>"
  let ?w1 = "w\<lparr>states := states w @ then_states ?n gs None\<rparr>"
  let ?w2 = "w\<lparr>states := states w @ then_states ?n gs (Some (Future_catch h ?c))
                          @ [\<lparr>s_value = Monostate, s_continuation = None\<rparr>]\<rparr>"
  have "then_chain gs (Some ?n) ?w0
        = Some (Some (?n + length gs), ?w0\<lparr>states := states w @ then_states ?n gs None\<rparr>)"
    by (rule then_chain_pending) simp
  then have ch: "then_chain gs (Some ?n) ?w0 = Some (Some (?n + length gs), ?w1)"
    by simp
  have at: "state_at (?n + length gs) ?w1 = Some \<lparr>s_value = Monostate, s_continuation = None\<rparr>"
    by (simp add: state_at_def)
  have ca: "fut_catch_exception h (Some (?n + length gs)) ?w1 = Some (Inr (None, Some ?c), ?w2)"
    using fut_attach_pending [OF at, of "Future_catch h"]
    by (simp add: fut_catch_exception_def list_update_append)
  have "satisfy (Error e) ?n ?w2 =
         execute_future (Some (Future_catch h ?c), ?n + length gs)
           \<lparr>states = states w @ drained (Error e) gs @ [\<lparr>s_value = Monostate, s_continuation = None\<rparr>],
            trace = trace ?w2 @ then_events ?n (Error e) gs,
            frames = frames ?w2,
            peak = (if gs = [] then peak ?w2 else max (peak ?w2) (Suc (frames ?w2)))\<rparr>"
    by (rule satisfy_drain) simp_all
  then have sa: "satisfy (Error e) ?n ?w2 =
         execute_future (Some (Future_catch h ?c), ?n + length gs)
           (before_catch gs e w (if gs = [] then peak w else max (peak w) (Suc (frames w))))"
    by (simp add: before_catch_def cong: if_cong)
  have "rejected_after_attach gs h e w = map_option snd (prm_set_exception e (Some ?n) ?w2)"
    by (simp add: rejected_after_attach_def make_promise_def make_shared_def ch ca)
  also have "\<dots> = satisfy (Error e) ?n ?w2"
    by (simp add: prm_set_exception_def prm_set_def split: option.splits)
  finally show ?thesis
    by (simp only: sa)
qed

lemma rejected_before_attach_eq:
  "rejected_before_attach gs h e w =
     execute_future
       (Some (Future_catch h (Suc (length (states w) + length gs))), length (states w) + length gs)
       (before_catch gs e w (if gs = [] then peak w else max (peak w) (Suc (frames w))))"
proof -
  let ?n = "length (states w)"
  let ?c = "Suc (?n + length gs)"
  let ?w0 = "w\<lparr>states := states w @ [\<lparr>s_value = Error e, s_continuation = None\<rparr>]\<rparr>"
  let ?w1 = "\<lparr>states = states w @ drained (Error e) gs,
                trace = trace w, frames = frames w,
                peak = (if gs = [] then peak w else max (peak w) (Suc (frames w)))\<rparr>"
  have "then_chain gs (Some ?n) ?w0 =
         Some (Some (?n + length gs),
               \<lparr>states = states w @ drained (Error e) gs,
                trace = trace ?w0 @ then_events ?n (Error e) gs,
                frames = frames ?w0,
                peak = (if gs = [] then peak ?w0 else max (peak ?w0) (Suc (frames ?w0)))\<rparr>)"
    by (rule then_chain_ready) simp_all
  then have ch: "then_chain gs (Some ?n) ?w0 = Some (Some (?n + length gs), ?w1)"
    by simp
  have ca: "fut_catch_exception h (Some (?n + length gs)) ?w1 =
      (case execute_future (Some (Future_catch h ?c), ?n + length gs)
              (before_catch gs e w (if gs = [] then peak w else max (peak w) (Suc (frames w)))) of
         None \<Rightarrow> None
       | Some w3 \<Rightarrow> Some (Inr (None, Some ?c), w3))"
    by (simp add: fut_catch_exception_def fut_attach_def make_shared_def state_chain_def
          state_at_def nth_append ready_impl_def before_catch_def cong: if_cong)
  show ?thesis
    by (simp add: rejected_before_attach_def make_exceptional_future_def make_ready_def
          make_shared_def put_state_def ch ca split: option.splits)
qed

lemma catch_from_before:
  assumes "execute_future
       (Some (Future_catch h (Suc (length (states w) + length gs))), length (states w) + length gs)
       (before_catch gs e w pk) = Some w'"
  shows "trace w' = trace w @ [Invoke_catch (Suc (length (states w) + length gs)) e]"
proof -
  let ?W = "before_catch gs e w pk"
  let ?a = "length (states w) + length gs" and ?d = "Suc (length (states w) + length gs)"
  from assms obtain k b w1 where cw: "continue_with (Future_catch h ?d) ?a ?W = Some ((k, b), w1)"
    and ex: "execute_future (k, b) w1 = Some w'"
    by (auto simp: execute_future_Some split: option.splits)
  have "k = None \<and> trace w1 = trace ?W @ [Invoke_catch ?d e]"
    by (rule catch_error_step [OF _ _ _ _ _ cw])
       (simp_all add: before_catch_def nth_append)
  with ex show ?thesis
    by (simp add: before_catch_def)
qed

lemma catch_from_before_returns:
  "execute_future
       (Some (Future_catch (Returns hf) (Suc (length (states w) + length gs))),
        length (states w) + length gs)
       (before_catch gs e w pk) \<noteq> None"
proof -
  let ?W = "before_catch gs e w pk"
  let ?a = "length (states w) + length gs" and ?d = "Suc (length (states w) + length gs)"
  have "catch_outcome (Returns hf) (Error e) \<noteq> Monostate"
    by (simp split: sum.splits)
  then have "\<exists>w1. continue_with (Future_catch (Returns hf) ?d) ?a ?W = Some ((None, ?d), w1)"
    using catch_step [of ?a ?W ?d "Error e" None None "Returns hf"]
    by (simp add: before_catch_def nth_append)
  then show ?thesis
    by (auto simp: execute_future_Some)
qed

lemma catch_from_before_eq:
  assumes "catch_outcome h (Error e) \<noteq> Monostate"
  shows "execute_future
       (Some (Future_catch h (Suc (length (states w) + length gs))), length (states w) + length gs)
       (before_catch gs e w pk) =
     Some \<lparr>states = states w
                     @ replicate (Suc (length gs)) \<lparr>s_value = Error Null_exception, s_continuation = None\<rparr>
                     @ [\<lparr>s_value = catch_outcome h (Error e), s_continuation = None\<rparr>],
           trace = trace w @ [Invoke_catch (Suc (length (states w) + length gs)) e],
           frames = frames w,
           peak = max pk (Suc (frames w))\<rparr>"
proof -
  let ?W = "before_catch gs e w pk"
  let ?a = "length (states w) + length gs" and ?d = "Suc (length (states w) + length gs)"
  let ?E = "\<lparr>s_value = Error Null_exception, s_continuation = None\<rparr>"
  have st: "states ?W = (states w @ replicate (length gs) ?E)
              @ [\<lparr>s_value = Error e, s_continuation = None\<rparr>,
                 \<lparr>s_value = Monostate, s_continuation = None\<rparr>]"
    by (simp add: before_catch_def drained_Error)
  have la: "length (states w @ replicate (length gs) ?E) = ?a"
    by simp
  have "continue_with (Future_catch h ?d) ?a ?W =
         Some ((None, ?d),
               \<lparr>states = (states ?W)[?a := \<lparr>s_value = moved_from (Error e), s_continuation = None\<rparr>,
                                     ?d := \<lparr>s_value = catch_outcome h (Error e), s_continuation = None\<rparr>],
                trace = trace ?W @ (case Error e of Error e \<Rightarrow> [Invoke_catch ?d e] | _ \<Rightarrow> []),
                frames = frames ?W,
                peak = max (peak ?W) (Suc (frames ?W))\<rparr>)"
    by (rule catch_step) (simp_all add: st nth_append assms del: replicate.simps)
  moreover have "(states ?W)[?a := \<lparr>s_value = moved_from (Error e), s_continuation = None\<rparr>,
                             ?d := \<lparr>s_value = catch_outcome h (Error e), s_continuation = None\<rparr>]
               = states w @ replicate (Suc (length gs)) ?E
                   @ [\<lparr>s_value = catch_outcome h (Error e), s_continuation = None\<rparr>]"
    unfolding st
    by (simp add: list_update_append replicate_append_same)
  ultimately show ?thesis
    by (simp add: execute_future_Some before_catch_def del: replicate.simps)
qed

text \<open>
  C2. A future is settled with the error \<open>e\<close>, after or before a chain of any number of
  \<open>then\<close> and a \<open>catch_exception(h)\<close> are attached to it. Whenever the program returns,
  the trace is the one call of the handler \<open>h\<close> with \<open>e\<close>: no then-function was called
  and the handler received that error. When \<open>h\<close> returns a plain result or throws, the
  program does return, and it leaves exactly this: every state the error has passed holds
  the moved-from \<open>exception_ptr\<close>, and the state of the future that \<open>catch_exception\<close>
  returned holds what \<open>h\<close> made of \<open>e\<close>, its result or the exception it threw. One step
  of it: a then-continuation whose source holds the error \<open>e\<close> calls nothing and leaves
  \<open>e\<close> in its destination.
\<close>

theorem error_reaches_first_catch:
  "(rejected_after_attach gs h e w = Some w'
      \<longrightarrow> trace w' = trace w @ [Invoke_catch (Suc (length (states w) + length gs)) e])
   \<and> (rejected_before_attach gs h e w = Some w''
      \<longrightarrow> trace w'' = trace w @ [Invoke_catch (Suc (length (states w) + length gs)) e])
   \<and> rejected_after_attach gs (Returns hf) e w =
       Some \<lparr>states = states w
                       @ replicate (Suc (length gs)) \<lparr>s_value = Error Null_exception, s_continuation = None\<rparr>
                       @ [\<lparr>s_value = (case hf e of Inr r \<Rightarrow> Value r | Inl ex \<Rightarrow> Error ex),
                           s_continuation = None\<rparr>],
             trace = trace w @ [Invoke_catch (Suc (length (states w) + length gs)) e],
             frames = frames w,
             peak = max (peak w) (Suc (frames w))\<rparr>
   \<and> rejected_before_attach gs (Returns hf) e w =
       Some \<lparr>states = states w
                       @ replicate (Suc (length gs)) \<lparr>s_value = Error Null_exception, s_continuation = None\<rparr>
                       @ [\<lparr>s_value = (case hf e of Inr r \<Rightarrow> Value r | Inl ex \<Rightarrow> Error ex),
                           s_continuation = None\<rparr>],
             trace = trace w @ [Invoke_catch (Suc (length (states w) + length gs)) e],
             frames = frames w,
             peak = max (peak w) (Suc (frames w))\<rparr>
   \<and> (a < length (states w) \<longrightarrow> s_value (states w ! a) = Error e
      \<longrightarrow> continue_with (Future_then g d) a w = Some (nxt, w1)
      \<longrightarrow> trace w1 = trace w \<and> map_option s_value (state_at d w1) = Some (Error e))"
proof -
  have "catch_outcome (Returns hf) (Error e) \<noteq> Monostate"
    by (simp split: sum.splits)
  from catch_from_before_eq [OF this, of w gs]
  have "execute_future
       (Some (Future_catch (Returns hf) (Suc (length (states w) + length gs))),
        length (states w) + length gs)
       (before_catch gs e w (if gs = [] then peak w else max (peak w) (Suc (frames w)))) =
     Some \<lparr>states = states w
                     @ replicate (Suc (length gs)) \<lparr>s_value = Error Null_exception, s_continuation = None\<rparr>
                     @ [\<lparr>s_value = (case hf e of Inr r \<Rightarrow> Value r | Inl ex \<Rightarrow> Error ex),
                         s_continuation = None\<rparr>],
           trace = trace w @ [Invoke_catch (Suc (length (states w) + length gs)) e],
           frames = frames w,
           peak = max (peak w) (Suc (frames w))\<rparr>"
    by (simp del: replicate.simps)
  then show ?thesis
    using catch_from_before [of h w gs e _ w'] catch_from_before [of h w gs e _ w'']
      then_error_step [of a w e g d nxt w1]
    by (simp add: rejected_after_attach_eq rejected_before_attach_eq del: replicate.simps)
qed

text \<open>
  The witness: two \<open>then\<close> and a \<open>catch_exception\<close> that maps every error to 5, with the
  error \<open>User_exception 7\<close>; and one step of a then-continuation on a state with that error.
\<close>

theorem error_reaches_first_catch_witness:
  "map_option trace
     (rejected_after_attach [Returns Inr, Returns Inr] (Returns (\<lambda>e. Inr (Integer 5)))
        (User_exception 7) world0) = Some [Invoke_catch 3 (User_exception 7)]
   \<and> map_option (map s_value \<circ> states)
     (rejected_after_attach [Returns Inr, Returns Inr] (Returns (\<lambda>e. Inr (Integer 5)))
        (User_exception 7) world0)
       = Some [Error Null_exception, Error Null_exception, Error Null_exception, Value (Integer 5)]
   \<and> map_option trace
     (rejected_before_attach [Returns Inr, Returns Inr] (Returns (\<lambda>e. Inr (Integer 5)))
        (User_exception 7) world0) = Some [Invoke_catch 3 (User_exception 7)]
   \<and> map_option (map s_value \<circ> states)
     (rejected_before_attach [Returns Inr, Returns Inr] (Returns (\<lambda>e. Inr (Integer 5)))
        (User_exception 7) world0)
       = Some [Error Null_exception, Error Null_exception, Error Null_exception, Value (Integer 5)]
   \<and> (0::nat) < length (states (snd (make_promise (snd (make_exceptional_future (User_exception 7) world0)))))
   \<and> s_value (states (snd (make_promise (snd (make_exceptional_future (User_exception 7) world0)))) ! 0)
       = Error (User_exception 7)
   \<and> continue_with (Future_then (Returns Inr) 1) 0
         (snd (make_promise (snd (make_exceptional_future (User_exception 7) world0)))) \<noteq> None
   \<and> trace (snd (the (continue_with (Future_then (Returns Inr) 1) 0
         (snd (make_promise (snd (make_exceptional_future (User_exception 7) world0))))))) = []
   \<and> map_option s_value (state_at 1 (snd (the (continue_with (Future_then (Returns Inr) 1) 0
         (snd (make_promise (snd (make_exceptional_future (User_exception 7) world0))))))))
       = Some (Error (User_exception 7))"
  using error_reaches_first_catch
    [of "[Returns Inr, Returns Inr]" "Returns (\<lambda>e. Inr (Integer 5))" "User_exception 7" world0
        "the (rejected_after_attach [Returns Inr, Returns Inr] (Returns (\<lambda>e. Inr (Integer 5)))
               (User_exception 7) world0)"
        "the (rejected_before_attach [Returns Inr, Returns Inr] (Returns (\<lambda>e. Inr (Integer 5)))
               (User_exception 7) world0)"]
  by (simp add: run_simps rejected_after_attach_def rejected_before_attach_def)


section \<open>The depth of dispatch\<close>

text \<open>
  C3. In every program over the interface that starts with no \<open>continue_with\<close> active,
  at most one \<open>continue_with\<close> is ever active: every continuation is called from the
  loop of \<open>execute_future\<close>, never from another continuation, whatever settles the state
  (a promise, \<open>then\<close> or \<open>catch_exception\<close> on a ready future, a \<open>future_attach\<close>).
  And a chain of any number \<open>N\<close> of \<open>then\<close> with plain functions completes: after the
  promise is satisfied, or when the chain is attached to a ready future, all \<open>N + 1\<close>
  states are settled and hold no continuation, with that same bound on the depth.
\<close>

theorem trampoline_depth:
  "(run xs ps = Some ps' \<longrightarrow> frames (heap ps) = 0 \<longrightarrow> peak (heap ps) \<le> 1
      \<longrightarrow> frames (heap ps') = 0 \<and> peak (heap ps') \<le> 1)
   \<and> (\<exists>w'. resolved_after_attach (map Returns fs) (Value v) world0 = Some w'
          \<and> length (states w') = Suc (length fs)
          \<and> list_all (\<lambda>s. ready_impl s \<and> s_continuation s = None) (states w')
          \<and> frames w' = 0 \<and> peak w' \<le> 1)
   \<and> (\<exists>w'. resolved_before_attach (map Returns fs) (Value v) world0 = Some w'
          \<and> length (states w') = Suc (length fs)
          \<and> list_all (\<lambda>s. ready_impl s \<and> s_continuation s = None) (states w')
          \<and> frames w' = 0 \<and> peak w' \<le> 1)"
proof (intro conjI impI)
  assume "run xs ps = Some ps'" "frames (heap ps) = 0" "peak (heap ps) \<le> 1"
  with run_respected [OF respected_depth_bounded, of xs ps ps']
  show "frames (heap ps') = 0" "peak (heap ps') \<le> 1"
    by (simp_all add: depth_bounded_def)
next
  have s: "settles (Value v) (map Returns fs)"
    by (rule settles_Returns) simp
  show "\<exists>w'. resolved_after_attach (map Returns fs) (Value v) world0 = Some w'
          \<and> length (states w') = Suc (length fs)
          \<and> list_all (\<lambda>s. ready_impl s \<and> s_continuation s = None) (states w')
          \<and> frames w' = 0 \<and> peak w' \<le> 1"
    using drained_all_settled [OF s]
    by (simp add: resolved_after_attach_eq [OF s] world0_def)
  show "\<exists>w'. resolved_before_attach (map Returns fs) (Value v) world0 = Some w'
          \<and> length (states w') = Suc (length fs)
          \<and> list_all (\<lambda>s. ready_impl s \<and> s_continuation s = None) (states w')
          \<and> frames w' = 0 \<and> peak w' \<le> 1"
    using drained_all_settled [OF s]
    by (simp add: resolved_before_attach_eq [OF s] world0_def)
qed

text \<open>The witness: two \<open>then\<close> on a pending future, then \<open>set_value(5)\<close>.\<close>

theorem trampoline_depth_witness:
  "run [Make_promise, Then 0 (Returns Inr), Then 1 (Returns Inr), Set_value 0 (Integer 5)] program0 \<noteq> None
   \<and> frames (heap program0) = 0 \<and> peak (heap program0) \<le> 1
   \<and> frames (heap (the (run [Make_promise, Then 0 (Returns Inr), Then 1 (Returns Inr),
                               Set_value 0 (Integer 5)] program0))) = 0
   \<and> peak (heap (the (run [Make_promise, Then 0 (Returns Inr), Then 1 (Returns Inr),
                             Set_value 0 (Integer 5)] program0))) = 1
   \<and> trace (heap (the (run [Make_promise, Then 0 (Returns Inr), Then 1 (Returns Inr),
                              Set_value 0 (Integer 5)] program0)))
       = [Invoke_then 1 (Integer 5), Invoke_then 2 (Integer 5)]"
  using trampoline_depth
    [of "[Make_promise, Then 0 (Returns Inr), Then 1 (Returns Inr), Set_value 0 (Integer 5)]"
        program0
        "the (run [Make_promise, Then 0 (Returns Inr), Then 1 (Returns Inr),
                   Set_value 0 (Integer 5)] program0)"]
  by (simp add: run_simps)


section \<open>A broken promise\<close>

text \<open>
  C4. A promise whose future has any chain of \<open>then\<close> attached is destroyed while its
  handle is not null. The destructor returns; the state of the promise is fulfilled with
  the error \<open>future_error("broken promise")\<close>, which is handed from state to state down
  the chain (a state it has left holds the moved-from \<open>exception_ptr\<close>) and ends in the
  state of the last future; the trace is unchanged, so no then-function was called.
  With no continuation attached, the error stays in the state of the promise.
\<close>

theorem broken_promise_delivered:
  "broken_promise gs w =
     Some \<lparr>states = states w
                     @ replicate (length gs) \<lparr>s_value = Error Null_exception, s_continuation = None\<rparr>
                     @ [\<lparr>s_value = Error (Future_error ''broken promise''), s_continuation = None\<rparr>],
           trace = trace w,
           frames = frames w,
           peak = (if gs = [] then peak w else max (peak w) (Suc (frames w)))\<rparr>"
proof -
  have "broken_promise gs w = resolved_after_attach gs (Error (Future_error ''broken promise'')) w"
    by (auto simp: broken_promise_def resolved_after_attach_def prm_destroy_def prm_set_def
             make_promise_def make_shared_def split: option.splits prod.splits)
  then show ?thesis
    by (simp add: resolved_after_attach_eq drained_Error)
qed


section \<open>When a continuation runs\<close>






section \<open>A function that returns a future\<close>

text \<open>
  \<open>then(g)\<close> on a pending future (state \<open>a\<close>); \<open>g\<close>, called with \<open>v\<close>, returns a future
  whose state \<open>i\<close> is pending, with a promise as its producer.
\<close>

lemma unwrap_inner_pending:
  assumes "state_at a w = Some \<lparr>s_value = Monostate, s_continuation = None\<rparr>"
    and "state_at i w = Some \<lparr>s_value = Monostate, s_continuation = None\<rparr>"
    and "a \<noteq> i" and "g v = Inr (Some i)" and "x \<noteq> Monostate" and "v \<noteq> Future_void"
  shows "\<exists>w1 w2 w3 w2' w3'.
       fut_then (Returns_future g) (Some a) w = Some (Inr (None, Some (length (states w))), w1)
     \<and> prm_set_value v (Some a) w1 = Some (Inr None, w2)
     \<and> fut_ready (Some (length (states w))) w2 = Some False
     \<and> trace w2 = trace w @ [Invoke_then (length (states w)) v]
     \<and> prm_set x (Some i) w2 = Some (Inr None, w3)
     \<and> map_option s_value (state_at (length (states w)) w3) = Some x
     \<and> trace w3 = trace w2
     \<and> prm_set x (Some i) w1 = Some (Inr None, w2')
     \<and> fut_ready (Some (length (states w))) w2' = Some False
     \<and> trace w2' = trace w
     \<and> prm_set_value v (Some a) w2' = Some (Inr None, w3')
     \<and> map_option s_value (state_at (length (states w)) w3') = Some x
     \<and> trace w3' = trace w @ [Invoke_then (length (states w)) v]"
proof (cases w)
  case (fields sts tr fr pk)
  from assms(1,2) fields have a: "a < length sts" and i: "i < length sts"
    and sa: "sts ! a = \<lparr>s_value = Monostate, s_continuation = None\<rparr>"
    and si: "sts ! i = \<lparr>s_value = Monostate, s_continuation = None\<rparr>"
    by (auto simp: state_at_def split: if_splits)
  from assms(5) have ix: "index x \<noteq> 0"
    by (cases x) simp_all
  from assms(5) have ix': "index (moved_from x) \<noteq> 0"
    by (cases x) simp_all
  show ?thesis
    using a i sa si assms(3,4,6) ix ix'
    by (simp add: fields run_simps nth_list_update nth_append)
qed

text \<open>The same when the future that \<open>g\<close> returns is settled already, with \<open>x\<close>.\<close>

lemma unwrap_inner_ready:
  assumes "state_at a w = Some \<lparr>s_value = Monostate, s_continuation = None\<rparr>"
    and "state_at i w = Some \<lparr>s_value = x, s_continuation = None\<rparr>"
    and "a \<noteq> i" and "g v = Inr (Some i)" and "x \<noteq> Monostate" and "v \<noteq> Future_void"
  shows "\<exists>w1 w2.
       fut_then (Returns_future g) (Some a) w = Some (Inr (None, Some (length (states w))), w1)
     \<and> fut_ready (Some (length (states w))) w1 = Some False
     \<and> trace w1 = trace w
     \<and> prm_set_value v (Some a) w1 = Some (Inr None, w2)
     \<and> map_option s_value (state_at (length (states w)) w2) = Some x
     \<and> trace w2 = trace w @ [Invoke_then (length (states w)) v]"
proof (cases w)
  case (fields sts tr fr pk)
  from assms(1,2) fields have a: "a < length sts" and i: "i < length sts"
    and sa: "sts ! a = \<lparr>s_value = Monostate, s_continuation = None\<rparr>"
    and si: "sts ! i = \<lparr>s_value = x, s_continuation = None\<rparr>"
    by (auto simp: state_at_def split: if_splits)
  from assms(5) have ix: "index x \<noteq> 0"
    by (cases x) simp_all
  show ?thesis
    using a i sa si assms(3,4,6) ix
    by (simp add: fields run_simps nth_list_update nth_append)
qed

text \<open>\<open>then(g)\<close> on a future that is settled with \<open>v\<close>: \<open>g\<close> runs inside \<open>then\<close>.\<close>

lemma unwrap_outer_ready:
  assumes "state_at a w = Some \<lparr>s_value = Value v, s_continuation = None\<rparr>"
    and "state_at i w = Some \<lparr>s_value = Monostate, s_continuation = None\<rparr>"
    and "a \<noteq> i" and "g v = Inr (Some i)" and "x \<noteq> Monostate" and "v \<noteq> Future_void"
  shows "\<exists>w1 w2.
       fut_then (Returns_future g) (Some a) w = Some (Inr (None, Some (length (states w))), w1)
     \<and> fut_ready (Some (length (states w))) w1 = Some False
     \<and> trace w1 = trace w @ [Invoke_then (length (states w)) v]
     \<and> prm_set x (Some i) w1 = Some (Inr None, w2)
     \<and> map_option s_value (state_at (length (states w)) w2) = Some x
     \<and> trace w2 = trace w1"
proof (cases w)
  case (fields sts tr fr pk)
  from assms(1,2) fields have a: "a < length sts" and i: "i < length sts"
    and sa: "sts ! a = \<lparr>s_value = Value v, s_continuation = None\<rparr>"
    and si: "sts ! i = \<lparr>s_value = Monostate, s_continuation = None\<rparr>"
    by (auto simp: state_at_def split: if_splits)
  from assms(5) have ix: "index x \<noteq> 0"
    by (cases x) simp_all
  from assms(5) have ix': "index (moved_from x) \<noteq> 0"
    by (cases x) simp_all
  show ?thesis
    using a i sa si assms(3,4,6) ix ix'
    by (simp add: fields run_simps nth_list_update nth_append)
qed

text \<open>
  The inner future is the one that \<open>f1.then(h)\<close> returned, on a pending future \<open>f1\<close>
  (state \<open>j\<close>): its producer is the then-continuation in the slot of \<open>j\<close>.
\<close>

lemma unwrap_inner_then:
  assumes "state_at a w = Some \<lparr>s_value = Monostate, s_continuation = None\<rparr>"
    and "state_at j w = Some \<lparr>s_value = Monostate,
                               s_continuation = Some (Future_then (Returns h) i)\<rparr>"
    and "state_at i w = Some \<lparr>s_value = Monostate, s_continuation = None\<rparr>"
    and "a \<noteq> i" and "a \<noteq> j" and "i \<noteq> j"
    and "g v = Inr (Some i)" and "h u = Inr r" and "v \<noteq> Future_void"
  shows "\<exists>w1 w2 w3 w2' w3'.
       fut_then (Returns_future g) (Some a) w = Some (Inr (None, Some (length (states w))), w1)
     \<and> prm_set_value v (Some a) w1 = Some (Inr None, w2)
     \<and> fut_ready (Some (length (states w))) w2 = Some False
     \<and> prm_set_value u (Some j) w2 = Some (Inr None, w3)
     \<and> map_option s_value (state_at (length (states w)) w3) = Some (Value r)
     \<and> trace w3 = trace w @ [Invoke_then (length (states w)) v, Invoke_then i u]
     \<and> prm_set_value u (Some j) w1 = Some (Inr None, w2')
     \<and> fut_ready (Some (length (states w))) w2' = Some False
     \<and> prm_set_value v (Some a) w2' = Some (Inr None, w3')
     \<and> map_option s_value (state_at (length (states w)) w3') = Some (Value r)
     \<and> trace w3' = trace w @ [Invoke_then i u, Invoke_then (length (states w)) v]"
proof (cases w)
  case (fields sts tr fr pk)
  from assms(1,2,3) fields have a: "a < length sts" and i: "i < length sts" and j: "j < length sts"
    and sa: "sts ! a = \<lparr>s_value = Monostate, s_continuation = None\<rparr>"
    and sj: "sts ! j = \<lparr>s_value = Monostate, s_continuation = Some (Future_then (Returns h) i)\<rparr>"
    and si: "sts ! i = \<lparr>s_value = Monostate, s_continuation = None\<rparr>"
    by (auto simp: state_at_def split: if_splits)
  show ?thesis
    using a i j sa si sj assms(4-9)
    by (simp add: fields run_simps nth_list_update nth_append)
qed

lemma then_future_branch_void:
  "\<not> (is_future (return_type f) \<and> future_then_continue_with Void_t f)"
  by (auto simp: future_then_continue_with_def future_invoke_result_def invoke_result_def
        future_then_future_branch_def std_get_def future_value_t_def future_storage_t_def
      split: option.splits if_splits)

text \<open>
  C1. The code does what the claim says wherever the continuation exists, and for an
  outer \<open>future<void>\<close> it does not exist. \<open>f.then(g)\<close> with \<open>f\<close> a \<open>future<void>\<close> and
  \<open>g\<close> a nullary function that returns a \<open>future<X>\<close> passes the \<open>static_assert\<close> of
  \<open>future_then\<close> and has the result type \<open>X\<close>, but the body of \<open>continue_with\<close> is
  ill-formed, for every such \<open>g\<close>, while a nullary function with a plain result and a
  function of \<open>int\<close> that returns a future are well-formed.

  For a value \<open>v\<close> other than \<open>future_void\<close>, on any heap, with \<open>n = length (states w)\<close>
  the state of the future that \<open>then\<close> returns: the downstream state holds the inner
  future's value or error \<open>x\<close> once both producers have settled, and is not ready
  before; \<open>g\<close> is called once, with \<open>v\<close>, when the outer producer settles. This is
  stated for an inner future that is pending when \<open>then(g)\<close> is attached, its producer
  being a promise (outer first and inner first) or a then-continuation on another
  pending future, as \<open>f1.then(h)\<close> leaves it (outer first and inner first); for an inner
  future that is settled already; and for an outer future that is settled already, so
  that \<open>g\<close> runs inside \<open>then\<close>. Every call returns. The function \<open>g\<close> returns a future
  it holds; a function that builds its future by calling \<open>then\<close> while it runs is not
  expressed in this development.
\<close>

theorem inner_future_is_unwrapped:
  "future_then_result_t Void_t \<lparr>parameters = [], return_type = Future_t Int_t\<rparr> = Some Int_t
   \<and> future_then_static_asserts Void_t \<lparr>parameters = [], return_type = Future_t Int_t\<rparr>
   \<and> \<not> future_then_continue_with Void_t \<lparr>parameters = [], return_type = Future_t Int_t\<rparr>
   \<and> \<not> (is_future (return_type f) \<and> future_then_continue_with Void_t f)
   \<and> future_then_continue_with Void_t \<lparr>parameters = [], return_type = Int_t\<rparr>
   \<and> future_then_continue_with Int_t \<lparr>parameters = [Int_t], return_type = Future_t Long_t\<rparr>
   \<and> (state_at a w = Some \<lparr>s_value = Monostate, s_continuation = None\<rparr>
      \<longrightarrow> state_at i w = Some \<lparr>s_value = Monostate, s_continuation = None\<rparr>
      \<longrightarrow> a \<noteq> i \<longrightarrow> g v = Inr (Some i) \<longrightarrow> x \<noteq> Monostate \<longrightarrow> v \<noteq> Future_void
      \<longrightarrow> (\<exists>w1 w2 w3 w2' w3'.
             fut_then (Returns_future g) (Some a) w = Some (Inr (None, Some (length (states w))), w1)
           \<and> prm_set_value v (Some a) w1 = Some (Inr None, w2)
           \<and> fut_ready (Some (length (states w))) w2 = Some False
           \<and> trace w2 = trace w @ [Invoke_then (length (states w)) v]
           \<and> prm_set x (Some i) w2 = Some (Inr None, w3)
           \<and> map_option s_value (state_at (length (states w)) w3) = Some x
           \<and> trace w3 = trace w2
           \<and> prm_set x (Some i) w1 = Some (Inr None, w2')
           \<and> fut_ready (Some (length (states w))) w2' = Some False
           \<and> trace w2' = trace w
           \<and> prm_set_value v (Some a) w2' = Some (Inr None, w3')
           \<and> map_option s_value (state_at (length (states w)) w3') = Some x
           \<and> trace w3' = trace w @ [Invoke_then (length (states w)) v]))
   \<and> (state_at b wb = Some \<lparr>s_value = Monostate, s_continuation = None\<rparr>
      \<longrightarrow> state_at ib wb = Some \<lparr>s_value = xb, s_continuation = None\<rparr>
      \<longrightarrow> b \<noteq> ib \<longrightarrow> gb vb = Inr (Some ib) \<longrightarrow> xb \<noteq> Monostate \<longrightarrow> vb \<noteq> Future_void
      \<longrightarrow> (\<exists>w1 w2.
             fut_then (Returns_future gb) (Some b) wb = Some (Inr (None, Some (length (states wb))), w1)
           \<and> fut_ready (Some (length (states wb))) w1 = Some False
           \<and> trace w1 = trace wb
           \<and> prm_set_value vb (Some b) w1 = Some (Inr None, w2)
           \<and> map_option s_value (state_at (length (states wb)) w2) = Some xb
           \<and> trace w2 = trace wb @ [Invoke_then (length (states wb)) vb]))
   \<and> (state_at c wc = Some \<lparr>s_value = Value vc, s_continuation = None\<rparr>
      \<longrightarrow> state_at ic wc = Some \<lparr>s_value = Monostate, s_continuation = None\<rparr>
      \<longrightarrow> c \<noteq> ic \<longrightarrow> gc vc = Inr (Some ic) \<longrightarrow> xc \<noteq> Monostate \<longrightarrow> vc \<noteq> Future_void
      \<longrightarrow> (\<exists>w1 w2.
             fut_then (Returns_future gc) (Some c) wc = Some (Inr (None, Some (length (states wc))), w1)
           \<and> fut_ready (Some (length (states wc))) w1 = Some False
           \<and> trace w1 = trace wc @ [Invoke_then (length (states wc)) vc]
           \<and> prm_set xc (Some ic) w1 = Some (Inr None, w2)
           \<and> map_option s_value (state_at (length (states wc)) w2) = Some xc
           \<and> trace w2 = trace w1))
   \<and> (state_at d wd = Some \<lparr>s_value = Monostate, s_continuation = None\<rparr>
      \<longrightarrow> state_at jd wd = Some \<lparr>s_value = Monostate,
                                   s_continuation = Some (Future_then (Returns h) kd)\<rparr>
      \<longrightarrow> state_at kd wd = Some \<lparr>s_value = Monostate, s_continuation = None\<rparr>
      \<longrightarrow> d \<noteq> kd \<longrightarrow> d \<noteq> jd \<longrightarrow> kd \<noteq> jd
      \<longrightarrow> gd vd = Inr (Some kd) \<longrightarrow> h u = Inr r \<longrightarrow> vd \<noteq> Future_void
      \<longrightarrow> (\<exists>w1 w2 w3 w2' w3'.
             fut_then (Returns_future gd) (Some d) wd = Some (Inr (None, Some (length (states wd))), w1)
           \<and> prm_set_value vd (Some d) w1 = Some (Inr None, w2)
           \<and> fut_ready (Some (length (states wd))) w2 = Some False
           \<and> prm_set_value u (Some jd) w2 = Some (Inr None, w3)
           \<and> map_option s_value (state_at (length (states wd)) w3) = Some (Value r)
           \<and> trace w3 = trace wd @ [Invoke_then (length (states wd)) vd, Invoke_then kd u]
           \<and> prm_set_value u (Some jd) w1 = Some (Inr None, w2')
           \<and> fut_ready (Some (length (states wd))) w2' = Some False
           \<and> prm_set_value vd (Some d) w2' = Some (Inr None, w3')
           \<and> map_option s_value (state_at (length (states wd)) w3') = Some (Value r)
           \<and> trace w3' = trace wd @ [Invoke_then kd u, Invoke_then (length (states wd)) vd]))"
proof (intro conjI impI)
  show "future_then_result_t Void_t \<lparr>parameters = [], return_type = Future_t Int_t\<rparr> = Some Int_t"
    and "future_then_static_asserts Void_t \<lparr>parameters = [], return_type = Future_t Int_t\<rparr>"
    by (simp_all add: future_then_static_asserts_def future_then_result_t_def
          future_invoke_result_def invoke_result_def is_valid_future_result_def
          is_convertible_def arithmetic_def)
  show "\<not> future_then_continue_with Void_t \<lparr>parameters = [], return_type = Future_t Int_t\<rparr>"
    using then_future_branch_void [of "\<lparr>parameters = [], return_type = Future_t Int_t\<rparr>"]
    by simp
  show "\<not> (is_future (return_type f) \<and> future_then_continue_with Void_t f)"
    by (rule then_future_branch_void)
  show "future_then_continue_with Void_t \<lparr>parameters = [], return_type = Int_t\<rparr>"
    and "future_then_continue_with Int_t \<lparr>parameters = [Int_t], return_type = Future_t Long_t\<rparr>"
    by (simp_all add: future_then_continue_with_def future_invoke_result_def invoke_result_def
          future_then_future_branch_def invoke_future_then_def std_get_def future_value_t_def
          future_storage_t_def is_convertible_def)
qed (rule unwrap_inner_pending unwrap_inner_ready unwrap_outer_ready unwrap_inner_then; assumption)+

text \<open>
  The witness: two promises, \<open>g\<close> returns the future of the second and the inner value
  is 3; the same with the inner future made ready with 3; with the outer future made
  ready with 5; and with \<open>then\<close> of \<open>i + 1\<close> attached to the second promise's future and
  \<open>g\<close> returning the future of that \<open>then\<close>, the inner producer being satisfied with 2.
\<close>

theorem inner_future_is_unwrapped_witness:
  "is_future (return_type \<lparr>parameters = [], return_type = Future_t Int_t\<rparr>)
   \<and> \<not> future_then_continue_with Void_t \<lparr>parameters = [], return_type = Future_t Int_t\<rparr>
   \<and> (\<exists>w1 w2 w3 w2' w3'.
       fut_then (Returns_future (\<lambda>v. Inr (Some 1))) (Some 0)
         (snd (make_promise (snd (make_promise world0)))) = Some (Inr (None, Some 2), w1)
     \<and> prm_set_value (Integer 5) (Some 0) w1 = Some (Inr None, w2)
     \<and> fut_ready (Some 2) w2 = Some False
     \<and> prm_set (Value (Integer 3)) (Some 1) w2 = Some (Inr None, w3)
     \<and> map_option s_value (state_at 2 w3) = Some (Value (Integer 3))
     \<and> prm_set (Value (Integer 3)) (Some 1) w1 = Some (Inr None, w2')
     \<and> fut_ready (Some 2) w2' = Some False
     \<and> prm_set_value (Integer 5) (Some 0) w2' = Some (Inr None, w3')
     \<and> map_option s_value (state_at 2 w3') = Some (Value (Integer 3)))
   \<and> (\<exists>w1 w2.
       fut_then (Returns_future (\<lambda>v. Inr (Some 1))) (Some 0)
         (snd (make_ready_future (Integer 3) (snd (make_promise world0))))
         = Some (Inr (None, Some 2), w1)
     \<and> fut_ready (Some 2) w1 = Some False
     \<and> prm_set_value (Integer 5) (Some 0) w1 = Some (Inr None, w2)
     \<and> map_option s_value (state_at 2 w2) = Some (Value (Integer 3)))
   \<and> (\<exists>w1 w2.
       fut_then (Returns_future (\<lambda>v. Inr (Some 1))) (Some 0)
         (snd (make_promise (snd (make_ready_future (Integer 5) world0))))
         = Some (Inr (None, Some 2), w1)
     \<and> fut_ready (Some 2) w1 = Some False
     \<and> trace w1 = [Invoke_then 2 (Integer 5)]
     \<and> prm_set (Value (Integer 3)) (Some 1) w1 = Some (Inr None, w2)
     \<and> map_option s_value (state_at 2 w2) = Some (Value (Integer 3)))
   \<and> (\<exists>w1 w2 w3 w2' w3'.
       fut_then (Returns_future (\<lambda>v. Inr (Some 2))) (Some 0)
         (heap (the (run [Make_promise, Make_promise,
                          Then 1 (Returns (\<lambda>v. case v of Integer i \<Rightarrow> Inr (Integer (i + 1))
                                                 | _ \<Rightarrow> Inr v))] program0)))
         = Some (Inr (None, Some 3), w1)
     \<and> prm_set_value (Integer 5) (Some 0) w1 = Some (Inr None, w2)
     \<and> fut_ready (Some 3) w2 = Some False
     \<and> prm_set_value (Integer 2) (Some 1) w2 = Some (Inr None, w3)
     \<and> map_option s_value (state_at 3 w3) = Some (Value (Integer 3))
     \<and> trace w3 = [Invoke_then 3 (Integer 5), Invoke_then 2 (Integer 2)]
     \<and> prm_set_value (Integer 2) (Some 1) w1 = Some (Inr None, w2')
     \<and> fut_ready (Some 3) w2' = Some False
     \<and> prm_set_value (Integer 5) (Some 0) w2' = Some (Inr None, w3')
     \<and> map_option s_value (state_at 3 w3') = Some (Value (Integer 3))
     \<and> trace w3' = [Invoke_then 2 (Integer 2), Invoke_then 3 (Integer 5)])"
proof -
  let ?wa = "snd (make_promise (snd (make_promise world0)))"
  let ?wb = "snd (make_ready_future (Integer 3) (snd (make_promise world0)))"
  let ?wc = "snd (make_promise (snd (make_ready_future (Integer 5) world0)))"
  let ?h = "\<lambda>v. case v of Integer i \<Rightarrow> Inr (Integer (i + 1)) | _ \<Rightarrow> Inr v"
  let ?wd = "heap (the (run [Make_promise, Make_promise, Then 1 (Returns ?h)] program0))"
  have a: "state_at 0 ?wa = Some \<lparr>s_value = Monostate, s_continuation = None\<rparr>"
    "state_at 1 ?wa = Some \<lparr>s_value = Monostate, s_continuation = None\<rparr>"
    "length (states ?wa) = 2" "trace ?wa = []"
    by (simp_all add: run_simps)
  have b: "state_at 0 ?wb = Some \<lparr>s_value = Monostate, s_continuation = None\<rparr>"
    "state_at 1 ?wb = Some \<lparr>s_value = Value (Integer 3), s_continuation = None\<rparr>"
    "length (states ?wb) = 2" "trace ?wb = []"
    by (simp_all add: run_simps)
  have c: "state_at 0 ?wc = Some \<lparr>s_value = Value (Integer 5), s_continuation = None\<rparr>"
    "state_at 1 ?wc = Some \<lparr>s_value = Monostate, s_continuation = None\<rparr>"
    "length (states ?wc) = 2" "trace ?wc = []"
    by (simp_all add: run_simps)
  have d: "state_at 0 ?wd = Some \<lparr>s_value = Monostate, s_continuation = None\<rparr>"
    "state_at 1 ?wd = Some \<lparr>s_value = Monostate,
                              s_continuation = Some (Future_then (Returns ?h) 2)\<rparr>"
    "state_at 2 ?wd = Some \<lparr>s_value = Monostate, s_continuation = None\<rparr>"
    "length (states ?wd) = 3" "trace ?wd = []"
    by (simp_all add: run_simps)
  from inner_future_is_unwrapped
    [where f = "\<lparr>parameters = [], return_type = Future_t Int_t\<rparr>"
       and a = 0 and w = ?wa and i = 1 and g = "\<lambda>v. Inr (Some 1)" and v = "Integer 5"
       and x = "Value (Integer 3)"
       and b = 0 and wb = ?wb and ib = 1 and gb = "\<lambda>v. Inr (Some 1)" and vb = "Integer 5"
       and xb = "Value (Integer 3)"
       and c = 0 and wc = ?wc and ic = 1 and gc = "\<lambda>v. Inr (Some 1)" and vc = "Integer 5"
       and xc = "Value (Integer 3)"
       and d = 0 and wd = ?wd and jd = 1 and kd = 2 and gd = "\<lambda>v. Inr (Some 2)"
       and vd = "Integer 5" and h = ?h and u = "Integer 2" and r = "Integer 3"]
  show ?thesis
    unfolding a b c d
    by simp blast
qed

section \<open>The value path of a catch-continuation\<close>

lemma catch_value_path_iff:
  "future_catch_value_path t r = (future_catch_result_t t r = Some t)"
  by (auto simp: future_catch_value_path_def variant_assignable_def future_value_t_def
        future_storage_t_def future_catch_result_t_def common_type_def arithmetic_def
      split: option.splits if_splits)

lemma catch_forwards_value:
  assumes "a < length (states w)" and "s_value (states w ! a) = Value v"
    and "continue_with (Future_catch h d) a w = Some (nxt, w')"
  shows "trace w' = trace w \<and> map_option s_value (state_at d w') = Some (Value v)"
  using assms
  by (cases w)
     (auto simp: continue_with_def move_value_def settle_def finish_def set_value_def
                 state_next_def state_at_def put_state_def enter_def leave_def nth_list_update
           split: option.splits if_splits)

text \<open>
  C5. The claim holds where the result type of the catch-continuation is \<open>T\<close>: a value
  in the source is moved into the destination and the handler is not called
  (\<open>catch_forwards_value\<close>). It does not hold for every handler that passes the
  convertibility requirement: for \<open>T = int\<close> and a handler that returns \<open>long\<close> the result
  type is \<open>long\<close> and both \<open>static_assert\<close>s pass, but the value path assigns a
  \<open>future_value<int>\<close> to a \<open>future_value<long>\<close>, which is ill-formed, so the
  instantiation does not compile. The other way round (\<open>T = long\<close>, handler returns
  \<open>int\<close>, as in \<open>main\<close>) the result type is \<open>T\<close> and the path is well-formed.
\<close>

theorem catch_value_path_ill_formed:
  "future_catch_result_t Int_t Long_t = Some Long_t
   \<and> future_catch_static_asserts Int_t Long_t
   \<and> \<not> future_catch_value_path Int_t Long_t
   \<and> future_catch_static_asserts Long_t Int_t
   \<and> future_catch_value_path Long_t Int_t"
  by (simp add: future_catch_result_t_def future_catch_static_asserts_def
        future_catch_value_path_def common_type_def arithmetic_def is_convertible_def
        is_valid_future_result_def variant_assignable_def future_value_t_def future_storage_t_def)

section \<open>The two implementations deliver the same\<close>

subsection \<open>The common first half of \<open>continue_with\<close>\<close>

lemma dispatch_front:
  "dispatch c a w =
     (case front c a w of
        None \<Rightarrow> None
      | Some (Settle x, w1) \<Rightarrow> settle (dest c) x w1
      | Some (Attach fut, w1) \<Rightarrow> attach_future fut (dest c) w1)"
  by (cases c)
     (auto simp: attach_continue_with_def
           split: option.splits future_value.splits func.splits sum.splits)


lemma front_world:
  assumes "front c a w = Some (act, w1)"
  shows "a < length (states w)
       \<and> states w1 = (states w)[a := (states w ! a)\<lparr>s_value := moved_from (s_value (states w ! a))\<rparr>]
       \<and> frames w1 = frames w \<and> peak w1 = peak w"
  using assms
  by (cases c)
     (auto simp: move_value_def state_at_def put_state_def log_event_def
           split: option.splits future_value.splits func.splits sum.splits if_splits)

subsection \<open>The trampoline keeps the heap well-formed\<close>

lemma inv_states: "states w' = states w \<Longrightarrow> heap_inv P k w' = heap_inv P k w"
  by (simp add: heap_inv_def slots_ok_def held_ok_def cell_def slot_def)

lemma inv_ghost [simp]:
  "heap_inv P k (enter w) = heap_inv P k w"
  "heap_inv P k (leave w) = heap_inv P k w"
  "heap_inv P k (log_event e w) = heap_inv P k w"
  by (rule inv_states, simp add: enter_def leave_def log_event_def)+

lemma moved_from_Monostate [simp]: "(moved_from v = Monostate) = (v = Monostate)"
  by (cases v) simp_all

lemma move_value_inv:
  "move_value a w = Some (v, w') \<Longrightarrow> heap_inv P k w' = heap_inv P k w"
  by (auto simp: move_value_def state_at_def put_state_def heap_inv_def slots_ok_def held_ok_def
                 cell_def slot_def nth_list_update
           split: if_splits)

lemma front_inv:
  assumes "front c a w = Some (act, w1)"
  shows "heap_inv P k w1 = heap_inv P k w"
  using assms
  by (cases c)
     (auto simp: move_value_inv
           split: option.splits future_value.splits func.splits sum.splits if_splits)

lemma future_state_update_both [simp]:
  "s\<lparr>s_value := x, s_continuation := k\<rparr> = \<lparr>s_value = x, s_continuation = k\<rparr>"
  by (cases s) simp

lemma settle_world:
  assumes "settle d x w = Some ((k, b), w')"
  shows "d < length (states w) \<and> x \<noteq> Monostate \<and> b = d \<and> k = slot d w
       \<and> states w' = (states w)[d := \<lparr>s_value = x, s_continuation = None\<rparr>]
       \<and> trace w' = trace w"
  using assms
  by (cases x)
     (auto simp: settle_def finish_def set_value_def state_next_def state_at_def put_state_def
                 slot_def ready_impl_def
           split: option.splits if_splits)

lemma settle_slots:
  assumes so: "slots_ok P w"
    and nd: "\<And>b c'. b < length (states w) \<Longrightarrow> slot b w = Some c' \<Longrightarrow> dest c' \<noteq> d"
    and st: "settle d x w = Some ((k, b), w')"
  shows "heap_inv P k w'"
proof -
  let ?d = d
  from settle_world [OF st] have d: "?d < length (states w)" and x: "x \<noteq> Monostate"
    and k: "k = slot ?d w"
    and w': "states w' = (states w)[?d := \<lparr>s_value = x, s_continuation = None\<rparr>]"
    by simp_all
  have slot': "slot b w' = (if b = ?d then None else slot b w)" if "b < length (states w)" for b
    using that d by (simp add: slot_def w' nth_list_update)
  have cell': "cell b w' = (if b = ?d then x else cell b w)" if "b < length (states w)" for b
    using that d by (simp add: cell_def w' nth_list_update)
  have len: "length (states w') = length (states w)"
    by (simp add: w')
  have A: "dest c' < length (states w) \<and> cell (dest c') w' = Monostate
            \<and> cell b w' = Monostate \<and> dest c' \<notin> P"
    if b: "b < length (states w)" and s: "slot b w' = Some c'" for b c'
  proof -
    from b s have bd: "b \<noteq> ?d" and s0: "slot b w = Some c'"
      by (auto simp: slot' split: if_splits)
    from so b s0 have *: "dest c' < length (states w)" "cell (dest c') w = Monostate"
      "cell b w = Monostate" "dest c' \<notin> P"
      by (auto simp: slots_ok_def)
    from nd [OF b s0] * bd b show ?thesis
      by (simp add: cell')
  qed
  have B: "b = b'"
    if "b < length (states w)" "b' < length (states w)" "slot b w' = Some c1"
      "slot b' w' = Some c2" "dest c1 = dest c2" for b b' c1 c2
    using that so by (auto simp: slot' slots_ok_def split: if_splits)
  have C: "\<forall>p \<in> P. p < length (states w)"
    using so by (simp add: slots_ok_def)
  have 1: "slots_ok P w'"
    unfolding slots_ok_def len using A B C by blast
  have 2: "held_ok P c' w'" if kc: "k = Some c'" for c'
  proof -
    from kc k have s0: "slot ?d w = Some c'" by simp
    from so d s0 have *: "dest c' < length (states w)" "cell (dest c') w = Monostate"
      "dest c' \<notin> P"
      by (auto simp: slots_ok_def)
    from nd [OF d s0] have ne: "dest c' \<noteq> ?d" .
    have "dest c'' \<noteq> dest c'" if "b < length (states w)" "slot b w' = Some c''" for b c''
    proof
      assume e: "dest c'' = dest c'"
      from that have bd: "b \<noteq> ?d" and sb: "slot b w = Some c''"
        by (auto simp: slot' split: if_splits)
      from so that(1) d sb s0 e have "b = ?d"
        by (auto simp: slots_ok_def)
      with bd show False ..
    qed
    with * ne show ?thesis
      by (simp add: held_ok_def len cell')
  qed
  from 1 2 show ?thesis
    by (simp add: heap_inv_def)
qed

lemma settle_inv:
  assumes "heap_inv P (Some c) w" and "settle (dest c) x w = Some ((k, b), w')"
  shows "heap_inv P k w'"
proof (rule settle_slots [OF _ _ assms(2)])
  from assms(1) show "slots_ok P w"
    by (simp add: heap_inv_def)
  fix b c'
  assume "b < length (states w)" "slot b w = Some c'"
  with assms(1) show "dest c' \<noteq> dest c"
    by (auto simp: heap_inv_def held_ok_def)
qed

lemma attach_future_None: 
  "attach_future None d w = settle d (Error (Future_error ''invalid future'')) w"
  by (simp add: attach_future_def settle_def finish_def split: option.splits)

lemma attach_future_ready:
  "state_ready i w = Some True \<Longrightarrow>
   attach_future (Some i) d w =
     (case move_value i w of None \<Rightarrow> None | Some (v, w1) \<Rightarrow> settle d v w1)"
  by (simp add: attach_future_def settle_def finish_def split: option.splits)

lemma attach_future_pending:
  "state_ready i w = Some False \<Longrightarrow>
   attach_future (Some i) d w =
     (case state_chain i (Future_attach d) w of
        None \<Rightarrow> None
      | Some (nxt, w1) \<Rightarrow> Some ((nxt, i), w1))"
  by (simp add: attach_future_def)

lemma attach_future_dangling:
  "state_ready i w = None \<Longrightarrow> attach_future (Some i) d w = None"
  by (simp add: attach_future_def)

lemma state_chain_pending:
  assumes "state_ready i w = Some False" and "state_chain i c w = Some (k, w')"
  shows "i < length (states w) \<and> cell i w = Monostate \<and> slot i w = None \<and> k = None
       \<and> states w' = (states w)[i := \<lparr>s_value = Monostate, s_continuation = Some c\<rparr>]
       \<and> trace w' = trace w"
proof -
  from assms(1) have i: "i < length (states w)" and r: "\<not> ready_impl (states w ! i)"
    by (auto simp: state_ready_def state_at_def split: if_splits)
  from r have m: "s_value (states w ! i) = Monostate"
    by (cases "s_value (states w ! i)") (simp_all add: ready_impl_def)
  obtain v k0 where s: "states w ! i = \<lparr>s_value = v, s_continuation = k0\<rparr>"
    by (cases "states w ! i") auto
  with m have v: "v = Monostate" by simp
  from assms(2) i r s v show ?thesis
    by (auto simp: state_chain_def state_at_def put_state_def cell_def slot_def
             split: if_splits)
qed

lemma chain_inv:
  assumes "heap_inv P (Some c) w" and r: "state_ready i w = Some False"
    and ch: "state_chain i c w = Some (k, w')"
  shows "heap_inv P k w'"
proof -
  let ?d = "dest c"
  from state_chain_pending [OF r ch] have i: "i < length (states w)"
    and ci: "cell i w = Monostate" and si: "slot i w = None" and k: "k = None"
    and w': "states w' = (states w)[i := \<lparr>s_value = Monostate,
                                          s_continuation = Some c\<rparr>]"
    by simp_all
  from assms(1) have so: "slots_ok P w" and ho: "held_ok P c w"
    by (simp_all add: heap_inv_def)
  have slot': "slot b w' = (if b = i then Some c else slot b w)"
    if "b < length (states w)" for b
    using that i by (simp add: slot_def w' nth_list_update)
  have cell': "cell b w' = cell b w" if "b < length (states w)" for b
    using that i ci by (auto simp: cell_def w' nth_list_update)
  have len: "length (states w') = length (states w)"
    by (simp add: w')
  from ho have hd: "?d < length (states w)" "cell ?d w = Monostate" "?d \<notin> P"
    and nd: "\<And>b c'. b < length (states w) \<Longrightarrow> slot b w = Some c' \<Longrightarrow> dest c' \<noteq> ?d"
    by (auto simp: held_ok_def)
  have A: "dest c' < length (states w) \<and> cell (dest c') w' = Monostate
            \<and> cell b w' = Monostate \<and> dest c' \<notin> P"
    if b: "b < length (states w)" and s: "slot b w' = Some c'" for b c'
  proof (cases "b = i")
    case True
    with s b have "c' = c" by (simp add: slot')
    with hd ci i True show ?thesis by (simp add: cell')
  next
    case False
    with s b have s0: "slot b w = Some c'" by (simp add: slot')
    from so b s0 have *: "dest c' < length (states w)" "cell (dest c') w = Monostate"
      "cell b w = Monostate" "dest c' \<notin> P"
      by (auto simp: slots_ok_def)
    with b show ?thesis by (simp add: cell')
  qed
  have B: "b = b'"
    if "b < length (states w)" "b' < length (states w)" "slot b w' = Some c1"
      "slot b' w' = Some c2" "dest c1 = dest c2" for b b' c1 c2
  proof (cases "b = i"; cases "b' = i")
    assume "b = i" "b' = i" then show ?thesis by simp
  next
    assume "b = i" "b' \<noteq> i"
    with that have "c1 = c" "slot b' w = Some c2" by (simp_all add: slot')
    with nd [OF that(2)] that(5) show ?thesis by simp
  next
    assume "b \<noteq> i" "b' = i"
    with that have "c2 = c" "slot b w = Some c1" by (simp_all add: slot')
    with nd [OF that(1)] that(5) show ?thesis by simp
  next
    assume "b \<noteq> i" "b' \<noteq> i"
    with that have "slot b w = Some c1" "slot b' w = Some c2" by (simp_all add: slot')
    with so that show ?thesis by (auto simp: slots_ok_def)
  qed
  have C: "\<forall>p \<in> P. p < length (states w)"
    using so by (simp add: slots_ok_def)
  have "slots_ok P w'"
    unfolding slots_ok_def len using A B C by blast
  with k show ?thesis
    by (simp add: heap_inv_def)
qed

lemma inv_held_dest: "dest c' = dest c \<Longrightarrow> heap_inv P (Some c') w = heap_inv P (Some c) w"
  by (simp add: heap_inv_def held_ok_def)

lemma chain_attach_inv:
  assumes "heap_inv P (Some c) w" and r: "state_ready i w = Some False"
    and ch: "state_chain i (Future_attach (dest c)) w = Some (k, w')"
  shows "heap_inv P k w'"
proof -
  from assms(1) have "heap_inv P (Some (Future_attach (dest c))) w"
    by (simp add: inv_held_dest [of "Future_attach (dest c)" c])
  from this r ch show ?thesis
    by (rule chain_inv)
qed

lemma attach_future_inv:
  assumes "heap_inv P (Some c) w" and "attach_future fut (dest c) w = Some ((k, b), w')"
  shows "heap_inv P k w'"
proof (cases fut)
  case None
  with assms show ?thesis
    by (simp add: attach_future_None settle_inv)
next
  case (Some i)
  show ?thesis
  proof (cases "state_ready i w")
    case None
    with Some assms(2) show ?thesis by (simp add: attach_future_dangling)
  next
    case (Some r)
    show ?thesis
    proof (cases r)
      case True
      with \<open>fut = Some i\<close> Some assms(2) obtain v w1 where mv: "move_value i w = Some (v, w1)"
        and st: "settle (dest c) v w1 = Some ((k, b), w')"
        by (auto simp: attach_future_ready split: option.splits)
      from assms(1) move_value_inv [OF mv] have "heap_inv P (Some c) w1" by simp
      then show ?thesis using st by (rule settle_inv)
    next
      case False
      with \<open>fut = Some i\<close> Some assms(2) have r: "state_ready i w = Some False"
        and ch: "state_chain i (Future_attach (dest c)) w = Some (k, w')"
        by (auto simp: attach_future_pending split: option.splits)
      from assms(1) r ch show ?thesis by (rule chain_attach_inv)
    qed
  qed
qed

lemma continue_with_inv:
  assumes "heap_inv P (Some c) w" and "continue_with c a w = Some ((k, b), w')"
  shows "heap_inv P k w'"
proof -
  from assms(2) obtain w1 where d: "dispatch c a (enter w) = Some ((k, b), w1)"
    and w': "w' = leave w1"
    by (auto simp: continue_with_def split: option.splits)
  from d obtain act wf where f: "front c a (enter w) = Some (act, wf)"
    and r: "(case act of Settle x \<Rightarrow> settle (dest c) x wf
                      | Attach fut \<Rightarrow> attach_future fut (dest c) wf) = Some ((k, b), w1)"
    by (auto simp: dispatch_front split: option.splits action.splits)
  from assms(1) front_inv [OF f] have i: "heap_inv P (Some c) wf" by simp
  from r have "heap_inv P k w1"
    using settle_inv [OF i] attach_future_inv [OF i] by (cases act) auto
  with w' show ?thesis by simp
qed

lemma execute_future_inv:
  "heap_inv P (fst nxt) w \<Longrightarrow> execute_future nxt w = Some w' \<Longrightarrow> heap_inv P None w'"
proof (induction nxt w rule: execute_future.induct)
  case (1 nxt w)
  show ?case
  proof (cases "fst nxt")
    case None
    with "1.prems" show ?thesis
      by (simp add: execute_future.simps)
  next
    case (Some c)
    with "1.prems"(2) obtain nxt' w1 where
      cw: "continue_with c (snd nxt) w = Some (nxt', w1)" and ex: "execute_future nxt' w1 = Some w'"
      by (subst (asm) execute_future.simps) (auto split: option.splits)
    from "1.prems"(1) Some cw have "heap_inv P (fst nxt') w1"
      using continue_with_inv [of P c w "snd nxt" "fst nxt'" "snd nxt'" w1] by simp
    with "1.IH" [OF Some cw refl _ ex] show ?thesis .
  qed
qed

subsection \<open>Steps that keep the two heaps related\<close>

lemma sim_same:
  "states wo' = states wo \<Longrightarrow> trace wo' = trace wo \<Longrightarrow> states wn' = states wn \<Longrightarrow>
   trace wn' = trace wn \<Longrightarrow> sim S wo' wn' = sim S wo wn"
  by (simp add: sim_def cell_def slot_def)

lemma sim_ghost [simp]:
  "sim S (enter wo) wn = sim S wo wn"
  "sim S wo (enter wn) = sim S wo wn"
  "sim S (leave wo) wn = sim S wo wn"
  "sim S wo (leave wn) = sim S wo wn"
  by (rule sim_same; simp add: enter_def leave_def)+

lemma sim_log [simp]: "sim S (log_event e wo) (log_event e wn) = sim S wo wn"
  by (simp add: sim_def cell_def slot_def log_event_def)

lemma sim_state:
  assumes "sim S wo wn" and "a < length (states wn)"
  shows "s_value (states wo ! a) = s_value (states wn ! a)"
  using assms by (simp add: sim_def cell_def)









subsection \<open>Settling and attaching, in both implementations\<close>











subsection \<open>One trampoline run against the nested calls\<close>





subsection \<open>More fuel keeps the result\<close>

lemma belowD: "below cw cw' \<Longrightarrow> cw c a w = Done w' \<Longrightarrow> cw' c a w = Done w'"
  by (simp add: below_def)


















subsection \<open>The calls of the interface\<close>






lemma make_shared_states:
  "make_shared w = (length (states w),
                    w\<lparr>states := states w @ [\<lparr>s_value = Monostate, s_continuation = None\<rparr>]\<rparr>)"
  by (simp add: make_shared_def)





subsection \<open>Programs\<close>

























end
